theory Spec2Isabelle
  imports Complex_Main "HOL-Library.Sublist"
begin

section \<open>Text primitives of the source language\<close>

text \<open>
  The repository is TypeScript. Its strings are modelled as \<open>string\<close> (lists of
  \<open>char\<close>), which covers the code units below 256; the characters the code looks
  for (back-ticks, commas, brackets, quotes, ASCII keywords) all lie in that range.
  Its numbers are modelled as \<open>rat\<close> where they are scores (a score is
  \<open>passed / total * 100\<close>) and as \<open>int\<close> where they are counters. Arithmetic on
  scores is exact here, where the source computes in double precision and rounds every
  quotient, product and difference; whether a score is 0 or 100, and how two given scores
  compare, is the same in both, but the difference of two scores can fall on the other side
  of a threshold of the classifier when it differs from it in the last bit.

  \<open>String.prototype.trim\<close> and the regular-expression class \<open>\s\<close> agree on
  what white space is; below 256 these are the seven characters of \<open>is_space\<close>.
  \<open>includes\<close>, \<open>startsWith\<close> and \<open>endsWith\<close> are \<open>sublist\<close>,
  \<open>prefix\<close> and \<open>suffix\<close>.
\<close>

definition NL :: char where
  "NL = CHR 0x0A"

definition is_space :: "char \<Rightarrow> bool" where
  "is_space c = (c = CHR 0x09 \<or> c = CHR 0x0A \<or> c = CHR 0x0B \<or> c = CHR 0x0C
                 \<or> c = CHR 0x0D \<or> c = CHR 0x20 \<or> c = CHR 0xA0)"

definition is_digit :: "char \<Rightarrow> bool" where
  "is_digit c = (let n = (of_char c :: nat) in 48 \<le> n \<and> n \<le> 57)"

definition is_word_char :: "char \<Rightarrow> bool" where
  "is_word_char c = (let n = (of_char c :: nat) in
     (48 \<le> n \<and> n \<le> 57) \<or> (65 \<le> n \<and> n \<le> 90) \<or> (97 \<le> n \<and> n \<le> 122) \<or> n = 95)"

definition trim :: "string \<Rightarrow> string" where
  "trim s = rev (dropWhile is_space (rev (dropWhile is_space s)))"

text \<open>\<open>s.split(c)\<close> for a one-character separator: never the empty list.\<close>

fun split_char :: "char \<Rightarrow> string \<Rightarrow> string list" where
  "split_char sep [] = [[]]"
| "split_char sep (c # cs) =
     (if c = sep then [] # split_char sep cs
      else (case split_char sep cs of
              l # ls \<Rightarrow> (c # l) # ls
            | [] \<Rightarrow> [[c]]))"

text \<open>\<open>s.split(sep)\<close> for a separator of one character or more.\<close>

fun js_split :: "string \<Rightarrow> string \<Rightarrow> string list" where
  "js_split sep [] = [[]]"
| "js_split sep (c # cs) =
     (if prefix sep (c # cs) then [] # js_split sep (drop (length sep - 1) cs)
      else (case js_split sep cs of
              l # ls \<Rightarrow> (c # l) # ls
            | [] \<Rightarrow> [[c]]))"

text \<open>\<open>parts.join(sep)\<close>.\<close>

fun js_join :: "string \<Rightarrow> string list \<Rightarrow> string" where
  "js_join sep [] = []"
| "js_join sep [x] = x"
| "js_join sep (x # y # ys) = x @ sep @ js_join sep (y # ys)"

text \<open>\<open>s.indexOf(pat)\<close>: \<open>None\<close> stands for \<open>-1\<close>.\<close>

fun indexOf :: "string \<Rightarrow> string \<Rightarrow> nat option" where
  "indexOf [] pat = (if pat = [] then Some 0 else None)"
| "indexOf (c # cs) pat =
     (if prefix pat (c # cs) then Some 0 else map_option Suc (indexOf cs pat))"

text \<open>The index of the first element that satisfies a test (a \<open>for\<close> loop with \<open>break\<close>).\<close>

fun find_index :: "('a \<Rightarrow> bool) \<Rightarrow> 'a list \<Rightarrow> nat option" where
  "find_index P [] = None"
| "find_index P (x # xs) = (if P x then Some 0 else map_option Suc (find_index P xs))"

section \<open>Code extraction\<close>

subsection \<open>The two fence patterns\<close>

text \<open>
  Both extractors that take a target language build the same two regular expressions
  from it, and run them with \<open>exec\<close> (leftmost match, no global flag):
  \<^verbatim>\<open>
  new RegExp(`\`\`\`${language}\\s*\\n([\\s\\S]*?)\\n?\`\`\``, 'i')
  new RegExp(`\`\`\`${language}\\s*\\n([\\s\\S]*)`, 'i')
  \<close>
  The language is read as literal text, which is what the expression means for a
  language name made of letters and digits (\<open>plain_language\<close>; every key of the
  evaluator's language table is one). With the \<open>i\<close> flag a letter of the pattern
  matches both of its cases and nothing else.

  \<open>regex_exec m s\<close> tries the match \<open>m\<close> at every start position of \<open>s\<close>, leftmost
  first. \<open>newline_ends r\<close> lists what may follow \<open>\s*\n\<close> at the start of \<open>r\<close>, the
  shortest \<open>\s*\<close> first; the matcher is greedy, so it tries them in reverse.
  \<open>lazy_until_fence\<close> is the capture of \<open>([\s\S]*?)\n?```\<close>: the shortest text
  after which an optional newline and a fence follow.
\<close>

definition fence :: string where
  "fence = ''```''"

definition plain_language :: "string \<Rightarrow> bool" where
  "plain_language language = list_all (\<lambda>c. is_word_char c \<and> c \<noteq> CHR ''_'') language"

definition to_upper :: "char \<Rightarrow> char" where
  "to_upper c =
     (let n = (of_char c :: nat) in if 97 \<le> n \<and> n \<le> 122 then char_of (n - 32) else c)"

fun ci_strip :: "string \<Rightarrow> string \<Rightarrow> string option" where
  "ci_strip [] s = Some s"
| "ci_strip (p # ps) [] = None"
| "ci_strip (p # ps) (c # cs) = (if to_upper p = to_upper c then ci_strip ps cs else None)"

fun newline_ends :: "string \<Rightarrow> string list" where
  "newline_ends [] = []"
| "newline_ends (c # cs) =
     (if is_space c then (if c = NL then [cs] else []) @ newline_ends cs else [])"

fun lazy_until_fence :: "string \<Rightarrow> string option" where
  "lazy_until_fence [] = None"
| "lazy_until_fence (c # cs) =
     (if prefix (NL # fence) (c # cs) \<or> prefix fence (c # cs) then Some []
      else map_option ((#) c) (lazy_until_fence cs))"

fun first_some :: "('a \<Rightarrow> 'b option) \<Rightarrow> 'a list \<Rightarrow> 'b option" where
  "first_some f [] = None"
| "first_some f (x # xs) = (case f x of Some y \<Rightarrow> Some y | None \<Rightarrow> first_some f xs)"

fun regex_exec :: "(string \<Rightarrow> 'a option) \<Rightarrow> string \<Rightarrow> 'a option" where
  "regex_exec m [] = m []"
| "regex_exec m (c # cs) = (case m (c # cs) of Some r \<Rightarrow> Some r | None \<Rightarrow> regex_exec m cs)"

definition closed_block_at :: "string \<Rightarrow> string \<Rightarrow> string option" where
  "closed_block_at language s =
     (case ci_strip (fence @ language) s of
        None \<Rightarrow> None
      | Some r \<Rightarrow> first_some lazy_until_fence (rev (newline_ends r)))"

definition open_block_at :: "string \<Rightarrow> string \<Rightarrow> string option" where
  "open_block_at language s =
     (case ci_strip (fence @ language) s of
        None \<Rightarrow> None
      | Some r \<Rightarrow> (case rev (newline_ends r) of [] \<Rightarrow> None | x # _ \<Rightarrow> Some x))"

text \<open>\<open>match && match[1]\<close>: a match whose capture is not the empty string.\<close>

definition truthy :: "string option \<Rightarrow> string option" where
  "truthy m = (case m of None \<Rightarrow> None | Some c \<Rightarrow> if c = [] then None else Some c)"

text \<open>\<open>/^\d+\.\s+\*\*/\<close> on a line.\<close>

definition numbered_bold :: "string \<Rightarrow> bool" where
  "numbered_bold line =
     (takeWhile is_digit line \<noteq> [] \<and>
      (case dropWhile is_digit line of
         [] \<Rightarrow> False
       | c # r \<Rightarrow> c = CHR ''.'' \<and> takeWhile is_space r \<noteq> []
                  \<and> prefix ''**'' (dropWhile is_space r)))"

definition is_anchor_line :: "string \<Rightarrow> bool" where
  "is_anchor_line line =
     (sublist ''from typing import'' line \<or> sublist ''class Solution:'' line)"

subsection \<open>The evaluator's extractor: \<open>extractCleanCode\<close>\<close>

definition stopPatterns :: "string list" where
  "stopPatterns =
     [fence, NL # ''### '', NL # ''## '', NL # ''Explanation'', NL # ''This approach'',
      NL # ''1. **'', NL # ''2. **'', NL # ''Time Complexity'', NL # ''Space Complexity'']"

definition earliestStop :: "string \<Rightarrow> nat" where
  "earliestStop codeContent =
     fold (\<lambda>pattern earliest.
             (case indexOf codeContent pattern of
                Some index \<Rightarrow> if index < earliest then index else earliest
              | None \<Rightarrow> earliest))
          stopPatterns (length codeContent)"

definition explanation_line :: "string \<Rightarrow> bool" where
  "explanation_line line =
     (prefix ''###'' line \<or> prefix ''Explanation'' line \<or> prefix ''This '' line
      \<or> prefix ''The '' line \<or> numbered_bold line)"

text \<open>
  Pattern 3 of \<open>extractCleanCode\<close>: from the first line that holds an anchor to the
  first later line that looks like explanation; kept only if it still holds
  \<open>class Solution:\<close>.
\<close>

definition class_detection :: "string \<Rightarrow> string option" where
  "class_detection code =
     (let lines = split_char NL code in
      case find_index is_anchor_line lines of
        None \<Rightarrow> None
      | Some startIndex \<Rightarrow>
          (let endIndex =
                 (case find_index (\<lambda>l. explanation_line (trim l)) (drop (startIndex + 1) lines) of
                    None \<Rightarrow> length lines
                  | Some k \<Rightarrow> startIndex + 1 + k);
               extracted = trim (js_join [NL] (take (endIndex - startIndex) (drop startIndex lines)))
           in if sublist ''class Solution:'' extracted then Some extracted else None))"

definition extractCleanCode :: "string \<Rightarrow> string \<Rightarrow> string" where
  "extractCleanCode code language =
     (case truthy (regex_exec (closed_block_at language) code) of
        Some block \<Rightarrow> trim block
      | None \<Rightarrow>
         (case truthy (regex_exec (open_block_at language) code) of
            Some codeContent \<Rightarrow> trim (take (earliestStop codeContent) codeContent)
          | None \<Rightarrow>
             (case (if language = ''python'' then class_detection code else None) of
                Some extracted \<Rightarrow> extracted
              | None \<Rightarrow>
                 if sublist ''class Solution:'' code \<and> \<not> sublist fence code then trim code
                 else code)))"

subsection \<open>The orchestrator's extractors\<close>

text \<open>
  \<open>extractCodeFromMarkdown\<close> runs before a candidate is sent for evaluation. After an
  open block it cuts at the first fence, then at the first of its explanation patterns
  that occurs (first in the list's order, not first in the text).
\<close>

definition explanationPatterns :: "string list" where
  "explanationPatterns =
     [NL # ''### '', NL # ''## '', NL # ''**Explanation'', NL # ''This approach'', NL # ''1. **'']"

definition cut_at_closing :: "string \<Rightarrow> string" where
  "cut_at_closing codeContent =
     (case indexOf codeContent fence of
        Some closingIndex \<Rightarrow> take closingIndex codeContent
      | None \<Rightarrow> codeContent)"

definition cut_at_explanation :: "string \<Rightarrow> string" where
  "cut_at_explanation codeContent =
     (case first_some (indexOf codeContent) explanationPatterns of
        Some index \<Rightarrow> take index codeContent
      | None \<Rightarrow> codeContent)"

definition extractCodeFromMarkdown :: "string \<Rightarrow> string \<Rightarrow> string" where
  "extractCodeFromMarkdown code language =
     (case truthy (regex_exec (closed_block_at language) code) of
        Some block \<Rightarrow> trim block
      | None \<Rightarrow>
         (case truthy (regex_exec (open_block_at language) code) of
            Some codeContent \<Rightarrow> trim (cut_at_explanation (cut_at_closing codeContent))
          | None \<Rightarrow> trim code))"

text \<open>
  \<open>extractPythonCodeFromText\<close> cleans the streamed code channel:
  \<^verbatim>\<open>
  let cleaned = text.replace(/```python\n?/g, '').replace(/```/g, '')
  \<close>
  then keeps the lines from the first anchor line on, up to the first line that looks
  like explanation. The anchor line itself is tested for that too.
\<close>

definition skip_newline :: "string \<Rightarrow> string" where
  "skip_newline r = (case r of [] \<Rightarrow> [] | d # ds \<Rightarrow> if d = NL then ds else r)"

function remove_python_fences :: "string \<Rightarrow> string" where
  "remove_python_fences [] = []"
| "remove_python_fences (c # cs) =
     (if prefix ''```python'' (c # cs)
      then remove_python_fences (skip_newline (drop 8 cs))
      else c # remove_python_fences cs)"
  by pat_completeness auto
termination
proof (relation "measure length")
  fix c :: char and cs :: string
  have "length (skip_newline r) \<le> length r" for r
    by (simp add: skip_newline_def split: list.splits)
  from this [of "drop 8 cs"] show "(skip_newline (drop 8 cs), c # cs) \<in> measure length"
    by simp
qed simp_all

function remove_all :: "string \<Rightarrow> string \<Rightarrow> string" where
  "remove_all pat [] = []"
| "remove_all pat (c # cs) =
     (if prefix pat (c # cs) then remove_all pat (drop (length pat - 1) cs)
      else c # remove_all pat cs)"
  by pat_completeness auto
termination
  by (relation "measure (\<lambda>(pat, s). length s)") simp_all

definition code_end_line :: "string \<Rightarrow> bool" where
  "code_end_line line =
     (prefix ''###'' line \<or> prefix ''Explanation'' line \<or> prefix ''1.'' line
      \<or> prefix ''This approach'' line \<or> numbered_bold line)"

fun collect_code :: "bool \<Rightarrow> string list \<Rightarrow> string list" where
  "collect_code foundCode [] = []"
| "collect_code foundCode (line # rest) =
     (let foundCode' = (foundCode \<or> is_anchor_line line) in
      if foundCode'
      then (if code_end_line (trim line) then [] else line # collect_code foundCode' rest)
      else collect_code foundCode' rest)"

definition extractPythonCodeFromText :: "string \<Rightarrow> string" where
  "extractPythonCodeFromText text =
     (let cleaned = remove_all fence (remove_python_fences text);
          lines = split_char NL cleaned;
          codeLines = collect_code False lines
      in trim (js_join [NL] codeLines))"

section \<open>Evaluator\<close>

text \<open>
  The second half of the source is the evaluation service (\<open>smart-handler\<close>). A test
  case is a list of JavaScript values, the last one the expected output. The values are
  modelled by \<open>js_value\<close>; \<open>JSON.parse\<close>, \<open>JSON.stringify\<close> and \<open>Number\<close> are
  built-ins of the language, not code of the repository, and are parameters of the model
  (\<open>js_builtins\<close>): \<open>JSON_parse\<close> gives \<open>None\<close> where the built-in throws,
  \<open>JSON_stringify\<close> gives \<open>None\<close> where it returns \<open>undefined\<close>, \<open>to_Number\<close>
  gives \<open>None\<close> for \<open>NaN\<close>.
\<close>

datatype js_value =
    JUndefined
  | JNull
  | JBool bool
  | JNum rat
  | JStr string
  | JArr "js_value list"
  | JObj "(string \<times> js_value) list"

record js_builtins =
  JSON_parse :: "string \<Rightarrow> js_value option"
  JSON_stringify :: "js_value \<Rightarrow> string option"
  to_Number :: "string \<Rightarrow> rat option"

text \<open>A value inside a template literal: \<open>undefined\<close> prints as the word.\<close>

definition interpolate :: "string option \<Rightarrow> string" where
  "interpolate v = (case v of None \<Rightarrow> ''undefined'' | Some s \<Rightarrow> s)"

subsection \<open>Parsing the stored test cases\<close>

text \<open>
  \<^verbatim>\<open>
  function parseValue(str) {
    str = str.trim();
    if (str.startsWith('[') && str.endsWith(']')) {
      try { return JSON.parse(str); } catch { return str; }
    }
    if (str.startsWith('"') && str.endsWith('"') || str.startsWith("'") && str.endsWith("'")) {
      return str.slice(1, -1);
    }
    if (!isNaN(Number(str))) { return Number(str); }
    return str;
  }
  \<close>
\<close>

definition parseValue :: "js_builtins \<Rightarrow> string \<Rightarrow> js_value" where
  \<open>parseValue B str0 =
     (let str = trim str0 in
      if prefix ''['' str \<and> suffix '']'' str
      then (case JSON_parse B str of Some v \<Rightarrow> v | None \<Rightarrow> JStr str)
      else if (prefix ''"'' str \<and> suffix ''"'' str) \<or> (prefix [CHR 0x27] str \<and> suffix [CHR 0x27] str)
      then JStr (butlast (tl str))
      else (case to_Number B str of Some n \<Rightarrow> JNum n | None \<Rightarrow> JStr str))\<close>

text \<open>
  \<open>smartSplit\<close> scans the text once. Its loop variables are the fields of
  \<open>split_state\<close>, one iteration is \<open>smartSplit_step\<close>, and what is pushed for the
  text gathered in \<open>current\<close> (\<open>parseValue(current.trim())\<close> in the source) is a
  parameter of the loop, so that the loop can also be read with the texts pushed as they
  are.
  \<^verbatim>\<open>
  for (let i = 0; i < str.length; i++) {
    const char = str[i];
    if (!inQuotes && (char === '"' || char === "'")) {
      inQuotes = true; quoteChar = char; current += char;
    } else if (inQuotes && char === quoteChar) {
      inQuotes = false; current += char;
    } else if (!inQuotes && char === '[') {
      depth++; current += char;
    } else if (!inQuotes && char === ']') {
      depth--; current += char;
    } else if (!inQuotes && char === ',' && depth === 0) {
      parts.push(parseValue(current.trim())); current = '';
    } else {
      current += char;
    }
  }
  if (current.trim()) { parts.push(parseValue(current.trim())); }
  \<close>
\<close>

record 'v split_state =
  parts :: "'v list"
  current :: string
  depth :: int
  inQuotes :: bool
  quoteChar :: string

definition split_init :: "'v split_state" where
  "split_init = \<lparr>parts = [], current = [], depth = 0, inQuotes = False, quoteChar = []\<rparr>"

definition smartSplit_step :: "(string \<Rightarrow> 'v) \<Rightarrow> 'v split_state \<Rightarrow> char \<Rightarrow> 'v split_state" where
  "smartSplit_step push st char =
     (if \<not> inQuotes st \<and> (char = CHR 0x22 \<or> char = CHR 0x27)
      then st\<lparr>inQuotes := True, quoteChar := [char], current := current st @ [char]\<rparr>
      else if inQuotes st \<and> [char] = quoteChar st
      then st\<lparr>inQuotes := False, current := current st @ [char]\<rparr>
      else if \<not> inQuotes st \<and> char = CHR ''[''
      then st\<lparr>depth := depth st + 1, current := current st @ [char]\<rparr>
      else if \<not> inQuotes st \<and> char = CHR '']''
      then st\<lparr>depth := depth st - 1, current := current st @ [char]\<rparr>
      else if \<not> inQuotes st \<and> char = CHR '','' \<and> depth st = 0
      then st\<lparr>parts := parts st @ [push (current st)], current := []\<rparr>
      else st\<lparr>current := current st @ [char]\<rparr>)"

definition smartSplit_scan :: "(string \<Rightarrow> 'v) \<Rightarrow> string \<Rightarrow> 'v split_state" where
  "smartSplit_scan push str = foldl (smartSplit_step push) split_init str"

definition smartSplit :: "js_builtins \<Rightarrow> string \<Rightarrow> js_value list" where
  "smartSplit B str =
     (let st = smartSplit_scan (\<lambda>current. parseValue B (trim current)) str in
      if trim (current st) \<noteq> [] then parts st @ [parseValue B (trim (current st))] else parts st)"

text \<open>
  \<open>parseTestCases\<close> cuts the stored text at every \<open>), (\<close>, strips one leading
  \<open>(\<close> and one trailing \<open>)\<close> from each piece and splits it. A missing text
  (\<open>None\<close>) makes \<open>split\<close> throw, which the function catches: no test cases.
\<close>

definition strip_open_paren :: "string \<Rightarrow> string" where
  "strip_open_paren s = (case s of c # cs \<Rightarrow> if c = CHR ''('' then cs else s | [] \<Rightarrow> [])"

definition strip_close_paren :: "string \<Rightarrow> string" where
  "strip_close_paren s = (if suffix '')'' s then butlast s else s)"

definition parseTestCases :: "js_builtins \<Rightarrow> string option \<Rightarrow> js_value list list" where
  "parseTestCases B testCasesString =
     (case testCasesString of
        None \<Rightarrow> []
      | Some s \<Rightarrow> map (\<lambda>caseStr. smartSplit B (strip_close_paren (strip_open_paren caseStr)))
                     (js_split ''), ('' s))"

definition parseParameterMap :: "string \<Rightarrow> string list" where
  "parseParameterMap parameterMapString = map trim (split_char CHR '','' parameterMapString)"

subsection \<open>The program sent for execution\<close>

text \<open>
  \<open>extractFunctionNameFromCode\<close> is the first match of \<open>/def\s+(\w+)\s*\(/\<close>, or
  \<open>solve\<close>. The three repetitions are greedy and cannot give a character back:
  white space, word characters and the parenthesis exclude one another.
\<close>

definition def_name_at :: "string \<Rightarrow> string option" where
  "def_name_at s =
     (if prefix ''def'' s
      then (let r = drop 3 s; r1 = dropWhile is_space r; name = takeWhile is_word_char r1 in
            if takeWhile is_space r \<noteq> [] \<and> name \<noteq> []
               \<and> prefix ''('' (dropWhile is_space (dropWhile is_word_char r1))
            then Some name else None)
      else None)"

definition extractFunctionNameFromCode :: "string \<Rightarrow> string" where
  "extractFunctionNameFromCode code =
     (case regex_exec def_name_at code of Some name \<Rightarrow> name | None \<Rightarrow> ''solve'')"

text \<open>\<open>inputs[i]\<close>: reading past the end gives \<open>undefined\<close>.\<close>

definition element :: "js_value list \<Rightarrow> nat \<Rightarrow> js_value" where
  "element xs i = (if i < length xs then xs ! i else JUndefined)"

text \<open>
  \<^verbatim>\<open>
  function generatePythonTestCall(inputs, parameterMap, functionName) {
    const functionParams = parameterMap.filter((param)=>param !== 'output');
    if (functionParams.length === 1) {
      return `result = solution.${functionName}(${JSON.stringify(inputs[0])})
      print(json.dumps(result))`;
    } else if (functionParams.length === 2) {
      return `result = solution.${functionName}(${JSON.stringify(inputs[0])}, ${JSON.stringify(inputs[1])})
      print(json.dumps(result))`;
    }
    return `print("Error: Unsupported parameter count")`;
  }
  \<close>
\<close>

definition generatePythonTestCall :: "js_builtins \<Rightarrow> js_value list \<Rightarrow> string list \<Rightarrow> string \<Rightarrow> string" where
  \<open>generatePythonTestCall B inputs parameterMap functionName =
     (let functionParams = filter (\<lambda>param. param \<noteq> ''output'') parameterMap in
      if length functionParams = 1
      then ''result = solution.'' @ functionName @ ''('' @ interpolate (JSON_stringify B (element inputs 0))
           @ '')\<newline>    print(json.dumps(result))''
      else if length functionParams = 2
      then ''result = solution.'' @ functionName @ ''('' @ interpolate (JSON_stringify B (element inputs 0))
           @ '', '' @ interpolate (JSON_stringify B (element inputs 1))
           @ '')\<newline>    print(json.dumps(result))''
      else ''print("Error: Unsupported parameter count")'')\<close>

definition createCompleteCode :: "js_builtins \<Rightarrow> string \<Rightarrow> js_value list \<Rightarrow> string list \<Rightarrow> string \<Rightarrow> string" where
  \<open>createCompleteCode B solutionCode inputs parameterMap language =
     (if language = ''python''
      then (let functionName = extractFunctionNameFromCode solutionCode in
            ''from typing import List\<newline>import json\<newline>\<newline>'' @ solutionCode
            @ ''\<newline>\<newline># Test execution\<newline>if __name__ == "__main__":\<newline>    solution = Solution()\<newline>    ''
            @ generatePythonTestCall B inputs parameterMap functionName @ ''\<newline>'')
      else solutionCode)\<close>

subsection \<open>Running the tests\<close>

text \<open>
  \<open>submitToJudge0\<close> posts the program to the execution service and polls for its
  answer; the service is outside the repository. It is a parameter of the model, of type
  \<open>judge\<close>: given the program and the language number it either throws (\<open>Inl\<close> with
  the message) or answers with a \<open>submission\<close>, whose fields may be missing.
\<close>

record submission =
  status_id :: "int option"
  status_description :: "string option"
  stdout :: "string option"
  stderr :: "string option"
  time :: "rat option"
  memory :: "rat option"

type_synonym judge = "string \<Rightarrow> int \<Rightarrow> string + submission"

record test_record =
  tr_input :: "string option"
  expected_output :: "string option"
  actual_output :: string
  passed :: bool
  execution_time :: rat
  memory_used :: rat
  tr_status :: string
  tr_error :: "string option"

record test_report =
  success_rate :: rat
  total_tests :: nat
  passed_tests :: nat
  failed_tests :: nat
  test_results :: "test_record list"
  overall_status :: string

definition LANGUAGE_IDS :: "(string \<times> int) list" where
  "LANGUAGE_IDS = [(''python'', 71), (''java'', 62), (''cpp'', 54), (''javascript'', 63),
                   (''c'', 50), (''go'', 60), (''rust'', 73)]"

text \<open>
  \<open>LANGUAGE_IDS[language] || LANGUAGE_IDS['python']\<close>. The table is read by its own
  keys, which is what the source's lookup does for every language name that is not the
  name of a member every object inherits (\<open>constructor\<close>, \<open>toString\<close>, \<open>valueOf\<close>,
  \<open>hasOwnProperty\<close> and the like): for those the source finds that member, which is
  no number, and \<open>language_id\<close> is not what is submitted.
\<close>

definition language_id :: "string \<Rightarrow> int" where
  "language_id language = (case map_of LANGUAGE_IDS language of Some n \<Rightarrow> n | None \<Rightarrow> 71)"

definition or_default :: "'a option \<Rightarrow> 'a \<Rightarrow> 'a" where
  "or_default v d = (case v of Some x \<Rightarrow> x | None \<Rightarrow> d)"

text \<open>
  The record pushed by the \<open>catch\<close> around one test. It is also where a test ends
  whose service answer has status 3 and no \<open>stdout\<close> (the service answers \<open>null\<close>
  for a program that printed nothing): \<open>stdout.trim()\<close> throws in the inner \<open>try\<close>
  and again in its \<open>catch\<close>, with the message of the engine that runs the function,
  \<open>null_trim_message\<close>. \<open>status?.description || 'Unknown'\<close> and \<open>stderr\<close> take an
  empty text like a missing one.
\<close>

definition null_trim_message :: string where
  "null_trim_message = ''Cannot read properties of null (reading '' @ [CHR 0x27] @ ''trim'' @ [CHR 0x27] @ '')''"

definition failed_test :: "js_builtins \<Rightarrow> js_value list \<Rightarrow> string \<Rightarrow> test_record" where
  "failed_test B testCase message =
     \<lparr>tr_input = JSON_stringify B (JArr (butlast testCase)),
      expected_output = JSON_stringify B (if testCase = [] then JUndefined else last testCase),
      actual_output = [], passed = False, execution_time = 0, memory_used = 0,
      tr_status = ''Error'', tr_error = Some message\<rparr>"

definition run_test ::
  "js_builtins \<Rightarrow> judge \<Rightarrow> string \<Rightarrow> string list \<Rightarrow> string \<Rightarrow> js_value list \<Rightarrow> test_record" where
  "run_test B submitToJudge0 solutionCode parameterMap language testCase =
     (let inputs = butlast testCase;
          expectedOutput = (if testCase = [] then JUndefined else last testCase);
          completeCode = createCompleteCode B solutionCode inputs parameterMap language
      in case submitToJudge0 completeCode (language_id language) of
           Inl message \<Rightarrow> failed_test B testCase message
         | Inr submissionResult \<Rightarrow>
            (let testResult =
                   \<lparr>tr_input = JSON_stringify B (JArr inputs),
                    expected_output = JSON_stringify B expectedOutput,
                    actual_output = or_default (stdout submissionResult) [],
                    passed = False,
                    execution_time = or_default (time submissionResult) 0,
                    memory_used = or_default (memory submissionResult) 0,
                    tr_status = or_default (truthy (status_description submissionResult)) ''Unknown'',
                    tr_error = truthy (stderr submissionResult)\<rparr>
             in if status_id submissionResult = Some 3
                then (case stdout submissionResult of
                        None \<Rightarrow> failed_test B testCase null_trim_message
                      | Some out \<Rightarrow>
                         (let actualOutputStr = trim out in
                          case JSON_parse B actualOutputStr of
                            Some actualOutput \<Rightarrow>
                              testResult\<lparr>actual_output := actualOutputStr,
                                         passed := (JSON_stringify B actualOutput
                                                    = JSON_stringify B expectedOutput)\<rparr>
                          | None \<Rightarrow>
                              testResult\<lparr>actual_output := trim out,
                                         passed := (Some (trim out)
                                                    = JSON_stringify B expectedOutput)\<rparr>))
                else testResult))"

text \<open>
  The report, computed from the test records after the loop:
  \<^verbatim>\<open>
  const passedTests = results.filter((r)=>r.passed).length;
  const totalTests = results.length;
  return {
    success_rate: totalTests > 0 ? passedTests / totalTests * 100 : 0,
    total_tests: totalTests,
    passed_tests: passedTests,
    failed_tests: totalTests - passedTests,
    test_results: results,
    overall_status: passedTests === totalTests ? 'All Passed' : 'Some Failed'
  };
  \<close>
  The rate is the exact quotient here. The source computes it in double-precision
  arithmetic, which rounds the division and the product: 29 of 100 gives
  \<open>28.999999999999996\<close>. The rate is 0 or 100 in the source exactly when it is here.
\<close>

definition summarize :: "test_record list \<Rightarrow> test_report" where
  "summarize results =
     (let passedTests = length (filter passed results);
          totalTests = length results
      in \<lparr>success_rate = (if totalTests > 0 then of_nat passedTests / of_nat totalTests * 100 else 0),
          total_tests = totalTests,
          passed_tests = passedTests,
          failed_tests = totalTests - passedTests,
          test_results = results,
          overall_status = (if passedTests = totalTests then ''All Passed'' else ''Some Failed'')\<rparr>)"

definition executeTests ::
  "js_builtins \<Rightarrow> judge \<Rightarrow> string \<Rightarrow> js_value list list \<Rightarrow> string list \<Rightarrow> string \<Rightarrow> test_report" where
  "executeTests B submitToJudge0 solutionCode testCases parameterMap language =
     summarize (map (run_test B submitToJudge0 solutionCode parameterMap language) testCases)"

section \<open>Improvement classifier\<close>

text \<open>
  \<^verbatim>\<open>
  function determineImprovementStrategy(improvement: number, successRate: number): string {
    if (successRate === 100) return 'problem_solved'
    if (improvement >= 50) return 'major_algorithm_fix'
    if (improvement >= 20) return 'significant_bug_fix'
    if (improvement > 0) return 'minor_improvement'
    return 'no_improvement'
  }
  \<close>
\<close>

definition determineImprovementStrategy :: "rat \<Rightarrow> rat \<Rightarrow> string" where
  "determineImprovementStrategy improvement successRate =
     (if successRate = 100 then ''problem_solved''
      else if improvement \<ge> 50 then ''major_algorithm_fix''
      else if improvement \<ge> 20 then ''significant_bug_fix''
      else if improvement > 0 then ''minor_improvement''
      else ''no_improvement'')"

section \<open>Session orchestrator\<close>

text \<open>
  The first half of the source is the reinforcement loop. Its durable store holds three
  tables; the model keeps each as the list of its rows in insertion order, and takes every
  insert and update to succeed. A new session's identifier is drawn from a counter.
  Timestamps are left out: \<open>completed\<close> says whether \<open>completed_at\<close> was written. The
  text of an improvement's \<open>changes_made\<close> is kept as the three numbers it prints
  (\<open>Improved_from_to old new delta\<close>). The narration strings (\<open>updates\<close>), the
  console log and \<open>total_time_spent\<close> take no part in any decision and are left out.
\<close>

datatype session_status = in_progress | solved | max_attempts_reached

record session =
  id' :: nat
  problem_id :: int
  status :: session_status
  best_success_rate :: rat
  total_attempts :: int
  max_attempts :: int
  completed :: bool

record solution =
  code :: string
  reasoning :: string
  explanation :: string

record attempt =
  session_id :: nat
  attempt_problem_id :: int
  attempt_number :: int
  generated_code :: string
  reasoning_content :: string
  attempt_explanation :: string
  attempt_language :: string
  attempt_success_rate :: rat
  failed_test_cases :: "test_record list"
  error_messages :: "string list"

datatype changes = Improved_from_to rat rat rat

record improvement_log =
  log_session_id :: nat
  from_attempt :: int
  to_attempt :: int
  changes_made :: changes
  improvement_strategy :: string

record store =
  reinforcement_sessions :: "session list"
  solution_attempts :: "attempt list"
  improvement_logs :: "improvement_log list"
  next_session_id :: nat

text \<open>
  The two remote calls of an attempt are parameters of the model. \<open>generate n\<close> is what
  the generation service streams back for attempt \<open>n\<close> (the collected code channel and
  reasoning channel), or \<open>None\<close> when the call throws. \<open>evaluate n code language\<close>
  is the evaluation service's report for the code submitted in attempt \<open>n\<close>, or
  \<open>None\<close> when the answer is not \<open>ok\<close> and \<open>testGeneratedSolution\<close> throws.
\<close>

record services =
  generate :: "int \<Rightarrow> (string \<times> string) option"
  evaluate :: "int \<Rightarrow> string \<Rightarrow> string \<Rightarrow> test_report option"

definition update_session :: "store \<Rightarrow> nat \<Rightarrow> (session \<Rightarrow> session) \<Rightarrow> store" where
  "update_session db sid f =
     db\<lparr>reinforcement_sessions := map (\<lambda>s. if id' s = sid then f s else s) (reinforcement_sessions db)\<rparr>"

definition find_session :: "store \<Rightarrow> nat \<Rightarrow> session option" where
  "find_session db sid = find (\<lambda>s. id' s = sid) (reinforcement_sessions db)"

definition generateSolutionWithContext :: "services \<Rightarrow> int \<Rightarrow> solution option" where
  "generateSolutionWithContext env attemptNumber =
     (case generate env attemptNumber of
        None \<Rightarrow> None
      | Some (codeContent, reasoningContent) \<Rightarrow>
          Some \<lparr>code = extractPythonCodeFromText codeContent,
                reasoning = trim reasoningContent,
                explanation = ''Generated via streaming''\<rparr>)"

definition testGeneratedSolution :: "services \<Rightarrow> int \<Rightarrow> string \<Rightarrow> string \<Rightarrow> test_report option" where
  "testGeneratedSolution env attemptNumber solutionCode language =
     evaluate env attemptNumber (extractCodeFromMarkdown solutionCode language) language"

definition storeSolutionAttempt ::
  "store \<Rightarrow> nat \<Rightarrow> int \<Rightarrow> int \<Rightarrow> solution \<Rightarrow> test_report \<Rightarrow> string \<Rightarrow> store" where
  "storeSolutionAttempt db sessionId problemId attemptNumber sol testResults language =
     db\<lparr>solution_attempts := solution_attempts db @
          [\<lparr>session_id = sessionId,
            attempt_problem_id = problemId,
            attempt_number = attemptNumber,
            generated_code = code sol,
            reasoning_content = reasoning sol,
            attempt_explanation = explanation sol,
            attempt_language = language,
            attempt_success_rate = success_rate testResults,
            failed_test_cases = filter (\<lambda>t. \<not> passed t) (test_results testResults),
            error_messages = map (\<lambda>t. the (tr_error t))
                               (filter (\<lambda>t. truthy (tr_error t) \<noteq> None) (test_results testResults))\<rparr>]\<rparr>"

definition logImprovement :: "store \<Rightarrow> nat \<Rightarrow> int \<Rightarrow> int \<Rightarrow> rat \<Rightarrow> rat \<Rightarrow> store" where
  "logImprovement db sessionId fromAttempt toAttempt newSuccessRate oldSuccessRate =
     (let improvement = newSuccessRate - oldSuccessRate;
          strategy = determineImprovementStrategy improvement newSuccessRate
      in db\<lparr>improvement_logs := improvement_logs db @
             [\<lparr>log_session_id = sessionId,
               from_attempt = fromAttempt,
               to_attempt = toAttempt,
               changes_made = Improved_from_to oldSuccessRate newSuccessRate improvement,
               improvement_strategy = strategy\<rparr>]\<rparr>)"

text \<open>
  The \<open>while\<close> loop of \<open>runReinforcementLoop\<close>. The \<open>session\<close> object is the one
  loaded before the loop and is never written to, so \<open>session.best_success_rate\<close> in
  the call of \<open>logImprovement\<close> is the best score at the start of the run. An attempt
  that throws goes to the \<open>catch\<close>, which only advances \<open>currentAttempt\<close>. The loop
  returns \<open>currentAttempt\<close>, \<open>bestSuccessRate\<close> and the store; after the \<open>break\<close>
  of a solved attempt \<open>currentAttempt\<close> has not been advanced.
  \<^verbatim>\<open>
  while (currentAttempt <= session.max_attempts) {
    try {
      const generatedSolution = await generateSolutionWithContext(supabase, session, currentAttempt, language)
      const testResults = await testGeneratedSolution(session.problem_id, generatedSolution.code, language)
      await storeSolutionAttempt(supabase, session.id, session.problem_id, currentAttempt,
                                generatedSolution, testResults, language)
      if (testResults.success_rate > bestSuccessRate) {
        bestSuccessRate = testResults.success_rate
        if (currentAttempt > 1) {
          await logImprovement(supabase, session.id, currentAttempt - 1, currentAttempt,
                              testResults.success_rate, session.best_success_rate)
        }
      }
      await supabase.from('reinforcement_sessions').update({
          total_attempts: currentAttempt,
          best_success_rate: bestSuccessRate,
          status: testResults.success_rate === 100 ? 'solved' : 'in_progress'
        }).eq('id', session.id)
      if (testResults.success_rate === 100) {
        await supabase.from('reinforcement_sessions').update({
            status: 'solved', completed_at: new Date().toISOString()
          }).eq('id', session.id)
        break
      }
      currentAttempt++
    } catch (error) {
      currentAttempt++
    }
  }
  \<close>
\<close>

function attempt_loop ::
  "services \<Rightarrow> string \<Rightarrow> session \<Rightarrow> int \<Rightarrow> rat \<Rightarrow> store \<Rightarrow> int \<times> rat \<times> store" where
  "attempt_loop env language session currentAttempt bestSuccessRate db =
     (if currentAttempt \<le> max_attempts session
      then (case generateSolutionWithContext env currentAttempt of
              None \<Rightarrow> attempt_loop env language session (currentAttempt + 1) bestSuccessRate db
            | Some generatedSolution \<Rightarrow>
               (case testGeneratedSolution env currentAttempt (code generatedSolution) language of
                  None \<Rightarrow> attempt_loop env language session (currentAttempt + 1) bestSuccessRate db
                | Some testResults \<Rightarrow>
                   (let db1 = storeSolutionAttempt db (id' session) (problem_id session) currentAttempt
                                generatedSolution testResults language;
                        improved = (success_rate testResults > bestSuccessRate);
                        best = (if improved then success_rate testResults else bestSuccessRate);
                        db2 = (if improved \<and> currentAttempt > 1
                               then logImprovement db1 (id' session) (currentAttempt - 1) currentAttempt
                                      (success_rate testResults) (best_success_rate session)
                               else db1);
                        db3 = update_session db2 (id' session)
                                (\<lambda>s. s\<lparr>total_attempts := currentAttempt,
                                        best_success_rate := best,
                                        status := (if success_rate testResults = 100 then solved
                                                   else in_progress)\<rparr>)
                    in if success_rate testResults = 100
                       then (currentAttempt, best,
                             update_session db3 (id' session) (\<lambda>s. s\<lparr>status := solved, completed := True\<rparr>))
                       else attempt_loop env language session (currentAttempt + 1) best db3)))
      else (currentAttempt, bestSuccessRate, db))"
  by pat_completeness auto
termination
  by (relation "measure (\<lambda>(env, language, session, currentAttempt, bestSuccessRate, db).
                  nat (max_attempts session + 1 - currentAttempt))") auto

declare attempt_loop.simps [simp del]

record latest_solution =
  ls_code :: string
  ls_reasoning :: string
  ls_success_rate :: rat
  ls_test_results :: "test_record list"

record final_solution =
  fs_code :: string
  fs_reasoning :: string
  fs_success_rate :: rat

record response =
  r_session_id :: nat
  r_problem_id :: int
  r_status :: session_status
  current_attempt :: int
  r_best_success_rate :: rat
  r_latest_solution :: latest_solution
  improvement_summary :: "changes list"
  final_success_rate :: "rat option"
  r_total_attempts :: "int option"
  final_solution :: "final_solution option"

text \<open>
  \<open>buildResponse\<close> reads the session's attempt with the highest attempt number
  (\<open>order('attempt_number', { ascending: false }).limit(1)\<close>) and the session's
  improvement log. Missing values fall back to empty text and 0.
\<close>

fun newest :: "attempt \<Rightarrow> attempt list \<Rightarrow> attempt" where
  "newest a [] = a"
| "newest a (b # bs) = newest (if attempt_number b > attempt_number a then b else a) bs"

definition latest_attempt :: "store \<Rightarrow> nat \<Rightarrow> attempt option" where
  "latest_attempt db sid =
     (case filter (\<lambda>a. session_id a = sid) (solution_attempts db) of
        [] \<Rightarrow> None
      | a # as \<Rightarrow> Some (newest a as))"

definition buildResponse :: "store \<Rightarrow> session \<Rightarrow> response" where
  "buildResponse db session =
     (let latestAttempt = latest_attempt db (id' session);
          improvements = filter (\<lambda>l. log_session_id l = id' session) (improvement_logs db)
      in \<lparr>r_session_id = id' session,
          r_problem_id = problem_id session,
          r_status = status session,
          current_attempt = total_attempts session,
          r_best_success_rate = best_success_rate session,
          r_latest_solution =
            \<lparr>ls_code = (case latestAttempt of Some a \<Rightarrow> generated_code a | None \<Rightarrow> []),
             ls_reasoning = (case latestAttempt of Some a \<Rightarrow> reasoning_content a | None \<Rightarrow> []),
             ls_success_rate = (case latestAttempt of Some a \<Rightarrow> attempt_success_rate a | None \<Rightarrow> 0),
             ls_test_results = (case latestAttempt of Some a \<Rightarrow> failed_test_cases a | None \<Rightarrow> [])\<rparr>,
          improvement_summary = map changes_made improvements,
          final_success_rate = None,
          r_total_attempts = None,
          final_solution = None\<rparr>)"

text \<open>
  After the loop:
  \<^verbatim>\<open>
  if (currentAttempt > session.max_attempts) {
    await supabase.from('reinforcement_sessions').update({
        status: 'max_attempts_reached', completed_at: new Date().toISOString()
      }).eq('id', session.id)
  }
  const updatedSession = { ...session, total_attempts: currentAttempt - 1, best_success_rate: bestSuccessRate }
  const response = await buildResponse(supabase, updatedSession, updates)
  response.final_success_rate = bestSuccessRate
  response.total_attempts = currentAttempt - 1
  \<close>
\<close>

definition runReinforcementLoop :: "services \<Rightarrow> store \<Rightarrow> session \<Rightarrow> string \<Rightarrow> response \<times> store" where
  "runReinforcementLoop env db session language =
     (case attempt_loop env language session (total_attempts session + 1) (best_success_rate session) db of
        (currentAttempt, bestSuccessRate, db1) \<Rightarrow>
          (let db2 = (if currentAttempt > max_attempts session
                      then update_session db1 (id' session)
                             (\<lambda>s. s\<lparr>status := max_attempts_reached, completed := True\<rparr>)
                      else db1);
               updatedSession = session\<lparr>total_attempts := currentAttempt - 1,
                                        best_success_rate := bestSuccessRate\<rparr>;
               response = buildResponse db2 updatedSession
           in (response\<lparr>final_success_rate := Some bestSuccessRate,
                        r_total_attempts := Some (currentAttempt - 1),
                        final_solution :=
                          (if bestSuccessRate > 0
                           then map_option (\<lambda>a. \<lparr>fs_code = generated_code a,
                                                  fs_reasoning = reasoning_content a,
                                                  fs_success_rate = attempt_success_rate a\<rparr>)
                                  (latest_attempt db2 (id' session))
                           else None)\<rparr>,
               db2)))"

text \<open>
  The request handler: a missing (or zero) problem identifier is refused; a session in a
  terminal state is answered from the store without running the loop.
\<close>

record request =
  req_problem_id :: "int option"
  req_language :: "string option"
  req_max_attempts :: "int option"
  req_session_id :: "nat option"

definition getOrCreateSession :: "store \<Rightarrow> int \<Rightarrow> int \<Rightarrow> nat option \<Rightarrow> session \<times> store" where
  "getOrCreateSession db problemId maxAttempts sessionId =
     (case (case sessionId of Some sid \<Rightarrow> find_session db sid | None \<Rightarrow> None) of
        Some session \<Rightarrow> (session, db)
      | None \<Rightarrow>
          (let newSession = \<lparr>id' = next_session_id db, problem_id = problemId, status = in_progress,
                             best_success_rate = 0, total_attempts = 0, max_attempts = maxAttempts,
                             completed = False\<rparr>
           in (newSession,
               db\<lparr>reinforcement_sessions := reinforcement_sessions db @ [newSession],
                  next_session_id := next_session_id db + 1\<rparr>)))"

datatype http_error = Bad_request string

definition serve :: "services \<Rightarrow> store \<Rightarrow> request \<Rightarrow> (http_error + response) \<times> store" where
  "serve env db req =
     (case (case req_problem_id req of Some p \<Rightarrow> if p = 0 then None else Some p | None \<Rightarrow> None) of
        None \<Rightarrow> (Inl (Bad_request ''Missing problem_id''), db)
      | Some problemId \<Rightarrow>
          (let language = or_default (req_language req) ''python'';
               maxAttempts = or_default (req_max_attempts req) 5
           in case getOrCreateSession db problemId maxAttempts (req_session_id req) of
                (sessionData, db1) \<Rightarrow>
                  if status sessionData = solved \<or> status sessionData = max_attempts_reached
                  then (Inr (buildResponse db1 sessionData), db1)
                  else (case runReinforcementLoop env db1 sessionData language of
                          (result, db2) \<Rightarrow> (Inr result, db2))))"

section \<open>Notions used to state the properties\<close>

text \<open>
  What one attempt of the loop gets from its two remote calls: the extracted solution and
  the test report, or nothing when either call throws; and the attempt's score.
\<close>

definition attempt_outcome :: "services \<Rightarrow> string \<Rightarrow> int \<Rightarrow> (solution \<times> test_report) option" where
  "attempt_outcome env language n =
     (case generateSolutionWithContext env n of
        None \<Rightarrow> None
      | Some generatedSolution \<Rightarrow>
          (case testGeneratedSolution env n (code generatedSolution) language of
             None \<Rightarrow> None
           | Some testResults \<Rightarrow> Some (generatedSolution, testResults)))"

definition attempt_score :: "services \<Rightarrow> string \<Rightarrow> int \<Rightarrow> rat option" where
  "attempt_score env language n = map_option (\<lambda>(g, r). success_rate r) (attempt_outcome env language n)"

text \<open>
  The store after an attempt that completed: the attempt row, the improvement log entry
  when there is one, and the session update, as the loop body writes them.
\<close>

definition record_attempt :: "session \<Rightarrow> string \<Rightarrow> int \<Rightarrow> rat \<Rightarrow> solution \<Rightarrow> test_report \<Rightarrow> store \<Rightarrow> store" where
  "record_attempt session language n best g r db =
     (let db1 = storeSolutionAttempt db (id' session) (problem_id session) n g r language;
          db2 = (if success_rate r > best \<and> n > 1
                 then logImprovement db1 (id' session) (n - 1) n (success_rate r) (best_success_rate session)
                 else db1)
      in update_session db2 (id' session)
           (\<lambda>s. s\<lparr>total_attempts := n,
                   best_success_rate := (if success_rate r > best then success_rate r else best),
                   status := (if success_rate r = 100 then solved else in_progress)\<rparr>))"

text \<open>
  The scores of the attempts of one run in order, \<open>None\<close> for an attempt that throws.
  Attempt \<open>k\<close> of the run (counted from 0) is made when no earlier one scored 100;
  \<open>best_before\<close> is the best score before it, starting from the session's stored best;
  \<open>exceeds_best\<close> says that it completed with a strictly higher score.
\<close>

definition attempt_scores :: "services \<Rightarrow> string \<Rightarrow> session \<Rightarrow> rat option list" where
  "attempt_scores env language s =
     map (attempt_score env language) [total_attempts s + 1..max_attempts s]"

definition made :: "rat option list \<Rightarrow> nat \<Rightarrow> bool" where
  "made scores k = (k < length scores \<and> Some 100 \<notin> set (take k scores))"

definition best_before :: "rat \<Rightarrow> rat option list \<Rightarrow> nat \<Rightarrow> rat" where
  "best_before best0 scores k = fold max (List.map_filter (\<lambda>x. x) (take k scores)) best0"

definition exceeds_best :: "rat \<Rightarrow> rat option list \<Rightarrow> nat \<Rightarrow> bool" where
  "exceeds_best best0 scores k =
     (case scores ! k of None \<Rightarrow> False | Some r \<Rightarrow> r > best_before best0 scores k)"

fun logs_improvement :: "int \<Rightarrow> rat \<Rightarrow> rat option list \<Rightarrow> bool" where
  "logs_improvement n best [] = False"
| "logs_improvement n best (None # rest) = logs_improvement (n + 1) best rest"
| "logs_improvement n best (Some r # rest) =
     ((r > best \<and> n > 1) \<or> (r \<noteq> 100 \<and> logs_improvement (n + 1) (max r best) rest))"

text \<open>
  The loop of \<open>smartSplit\<close> read as a recursive function, for the proofs: the texts
  between its cuts, as they are. \<open>top_level_split d q qc\<close> continues from bracket count
  \<open>d\<close>, inside quotes if \<open>q\<close>, the open quote being \<open>qc\<close>.
\<close>

fun top_level_split :: "int \<Rightarrow> bool \<Rightarrow> string \<Rightarrow> string \<Rightarrow> string list" where
  "top_level_split d q qc [] = [[]]"
| "top_level_split d q qc (c # cs) =
     (if \<not> q \<and> c = CHR '','' \<and> d = 0 then [] # top_level_split d q qc cs
      else (case top_level_split
                  (if \<not> q \<and> c = CHR ''['' then d + 1 else if \<not> q \<and> c = CHR '']'' then d - 1 else d)
                  (if \<not> q \<and> (c = CHR 0x22 \<or> c = CHR 0x27) then True
                   else if q \<and> [c] = qc then False else q)
                  (if \<not> q \<and> (c = CHR 0x22 \<or> c = CHR 0x27) then [c] else qc)
                  cs of
              l # ls \<Rightarrow> (c # l) # ls
            | [] \<Rightarrow> [[c]]))"

definition top_level_fields :: "string \<Rightarrow> string list" where
  "top_level_fields str = top_level_split 0 False [] str"

text \<open>
  Well-formed texts, as the specification speaks of them. A quoted string is a quote
  character, a text without that character, and the same character again. A nested text
  is what may stand between two matching square brackets: quoted strings, bracketed
  sequences and other characters, commas among them. A field text is the same without a
  comma outside its quoted strings and bracketed sequences.
\<close>

inductive nested_text :: "string \<Rightarrow> bool" where
  nested_end: "nested_text []"
| nested_plain: "c \<noteq> CHR ''['' \<Longrightarrow> c \<noteq> CHR '']'' \<Longrightarrow> c \<noteq> CHR 0x22 \<Longrightarrow> c \<noteq> CHR 0x27
     \<Longrightarrow> nested_text s \<Longrightarrow> nested_text (c # s)"
| nested_quoted: "q = CHR 0x22 \<or> q = CHR 0x27 \<Longrightarrow> q \<notin> set body
     \<Longrightarrow> nested_text s \<Longrightarrow> nested_text (q # body @ q # s)"
| nested_bracketed: "nested_text a \<Longrightarrow> nested_text s \<Longrightarrow> nested_text (CHR ''['' # a @ CHR '']'' # s)"

inductive field_text :: "string \<Rightarrow> bool" where
  field_end: "field_text []"
| field_plain: "c \<noteq> CHR ''['' \<Longrightarrow> c \<noteq> CHR '']'' \<Longrightarrow> c \<noteq> CHR 0x22 \<Longrightarrow> c \<noteq> CHR 0x27
     \<Longrightarrow> c \<noteq> CHR '','' \<Longrightarrow> field_text s \<Longrightarrow> field_text (c # s)"
| field_quoted: "q = CHR 0x22 \<or> q = CHR 0x27 \<Longrightarrow> q \<notin> set body
     \<Longrightarrow> field_text s \<Longrightarrow> field_text (q # body @ q # s)"
| field_bracketed: "nested_text a \<Longrightarrow> field_text s \<Longrightarrow> field_text (CHR ''['' # a @ CHR '']'' # s)"

text \<open>A text put in front of the first of a list of texts.\<close>

definition onto :: "string \<Rightarrow> string list \<Rightarrow> string list" where
  "onto p xs = (p @ hd xs) # tl xs"

text \<open>
  An attempt row as the report's \<open>latest_solution\<close> shows it, the report's fallback
  when there is no row, and the best-scoring attempt of a session (the earliest one among
  equals).
\<close>

definition solution_view :: "attempt \<Rightarrow> latest_solution" where
  "solution_view a =
     \<lparr>ls_code = generated_code a, ls_reasoning = reasoning_content a,
      ls_success_rate = attempt_success_rate a, ls_test_results = failed_test_cases a\<rparr>"

definition no_solution :: latest_solution where
  "no_solution = \<lparr>ls_code = [], ls_reasoning = [], ls_success_rate = 0, ls_test_results = []\<rparr>"

fun best_of :: "attempt \<Rightarrow> attempt list \<Rightarrow> attempt" where
  "best_of a [] = a"
| "best_of a (b # bs) =
     best_of (if attempt_success_rate b > attempt_success_rate a then b else a) bs"

definition best_scoring_attempt :: "store \<Rightarrow> nat \<Rightarrow> attempt option" where
  "best_scoring_attempt db sid =
     (case filter (\<lambda>a. session_id a = sid) (solution_attempts db) of
        [] \<Rightarrow> None
      | a # as \<Rightarrow> Some (best_of a as))"

definition projr_opt :: "'a + 'b \<Rightarrow> 'b option" where
  "projr_opt x = (case x of Inl a \<Rightarrow> None | Inr b \<Rightarrow> Some b)"

text \<open>
  The expected output of a test case, and whether the text the execution service reports
  counts as that output: compared as JSON when it parses, as text otherwise.
\<close>

definition expected_of :: "js_value list \<Rightarrow> js_value" where
  "expected_of testCase = (if testCase = [] then JUndefined else last testCase)"

definition output_matches :: "js_builtins \<Rightarrow> string \<Rightarrow> js_value \<Rightarrow> bool" where
  "output_matches B out expected =
     (case JSON_parse B out of
        Some actual \<Rightarrow> JSON_stringify B actual = JSON_stringify B expected
      | None \<Rightarrow> Some out = JSON_stringify B expected)"

text \<open>The program sent for a problem with an unsupported number of parameters.\<close>

definition unsupported_program :: "string \<Rightarrow> string" where
  \<open>unsupported_program solutionCode =
     ''from typing import List\<newline>import json\<newline>\<newline>'' @ solutionCode
     @ ''\<newline>\<newline># Test execution\<newline>if __name__ == "__main__":\<newline>    solution = Solution()\<newline>    print("Error: Unsupported parameter count")\<newline>''\<close>

text \<open>
  The evaluator's search for a class, line by line: the lines from the first one that
  holds \<open>from typing import\<close> or \<open>class Solution:\<close> up to the next explanation line,
  and their text, joined and trimmed.
\<close>

definition code_lines :: "string list \<Rightarrow> string list option" where
  "code_lines lines =
     (case dropWhile (\<lambda>l. \<not> is_anchor_line l) lines of
        [] \<Rightarrow> None
      | first # rest \<Rightarrow> Some (first # takeWhile (\<lambda>l. \<not> explanation_line (trim l)) rest))"

definition detected :: "string \<Rightarrow> string option" where
  "detected src = map_option (\<lambda>ls. trim (js_join [NL] ls)) (code_lines (split_char NL src))"

section \<open>Scenarios\<close>

subsection \<open>Scripted services and stores\<close>

text \<open>
  Concrete services for running the model. A scripted service answers attempt \<open>n\<close> with
  the \<open>n\<close>-th entry of a script: it throws, or it streams the given code and reports
  \<open>p\<close> of \<open>t\<close> tests passed.
\<close>

definition passing_test :: test_record where
  "passing_test = \<lparr>tr_input = Some ''[1]'', expected_output = Some ''1'', actual_output = ''1'',
                    passed = True, execution_time = 0, memory_used = 0, tr_status = ''Accepted'',
                    tr_error = None\<rparr>"

definition failing_test :: test_record where
  "failing_test = \<lparr>tr_input = Some ''[1]'', expected_output = Some ''1'', actual_output = ''2'',
                    passed = False, execution_time = 0, memory_used = 0, tr_status = ''Accepted'',
                    tr_error = None\<rparr>"

datatype scripted = Throws | Passes string nat nat

definition scripted_report :: "nat \<Rightarrow> nat \<Rightarrow> test_report" where
  "scripted_report p n = summarize (replicate p passing_test @ replicate (n - p) failing_test)"

definition script_at :: "scripted list \<Rightarrow> int \<Rightarrow> scripted" where
  "script_at script n = (if 1 \<le> n \<and> n \<le> int (length script) then script ! nat (n - 1) else Throws)"

definition scripted_services :: "scripted list \<Rightarrow> services" where
  "scripted_services script =
     \<lparr>generate = (\<lambda>n. case script_at script n of Throws \<Rightarrow> None | Passes c p t \<Rightarrow> Some (c, ''reasoning'')),
      evaluate = (\<lambda>n c l. case script_at script n of Throws \<Rightarrow> None
                           | Passes c p t \<Rightarrow> Some (scripted_report p t))\<rparr>"

definition empty_store :: store where
  "empty_store = \<lparr>reinforcement_sessions = [], solution_attempts = [], improvement_logs = [],
                  next_session_id = 1\<rparr>"

definition new_request :: "int \<Rightarrow> int \<Rightarrow> request" where
  "new_request pid budget =
     \<lparr>req_problem_id = Some pid, req_language = None, req_max_attempts = Some budget,
      req_session_id = None\<rparr>"

definition resume_request :: "int \<Rightarrow> int \<Rightarrow> nat \<Rightarrow> request" where
  "resume_request pid budget sid =
     \<lparr>req_problem_id = Some pid, req_language = None, req_max_attempts = Some budget,
      req_session_id = Some sid\<rparr>"

definition new_session :: "nat \<Rightarrow> int \<Rightarrow> int \<Rightarrow> session" where
  "new_session sid pid budget =
     \<lparr>id' = sid, problem_id = pid, status = in_progress, best_success_rate = 0, total_attempts = 0,
      max_attempts = budget, completed = False\<rparr>"

definition store_with :: "session \<Rightarrow> store" where
  "store_with s = \<lparr>reinforcement_sessions = [s], solution_attempts = [], improvement_logs = [],
                   next_session_id = Suc (id' s)\<rparr>"

definition script_40_40_100 :: "scripted list" where
  "script_40_40_100 = [Passes ''class Solution: # one'' 2 5, Passes ''class Solution: # two'' 2 5,
                       Passes ''class Solution: # three'' 5 5]"

definition script_40 :: "scripted list" where
  "script_40 = [Passes ''class Solution: # one'' 2 5]"

definition script_50_throw :: "scripted list" where
  "script_50_throw = [Passes ''class Solution: # one'' 1 2, Throws]"

definition script_60_40 :: "scripted list" where
  "script_60_40 = [Passes ''class Solution: # better'' 3 5, Passes ''class Solution: # worse'' 2 5]"

subsection \<open>The built-ins of the language\<close>

text \<open>
  A model of the three built-ins, for running the evaluator on concrete inputs. Its
  numbers are the exact values of their decimal literals: it does not round to doubles
  (the digits printed for a number are its exact digits) and it has neither \<open>NaN\<close> nor
  the infinities, so \<open>Number\<close> of the word \<open>Infinity\<close> is answered like \<open>NaN\<close>. Its
  strings hold code units below 256, so a \<open>u\<close>-escape above \<open>00ff\<close> in a JSON text is
  answered like a syntax error.

  \<open>decimal\<close> prints the digits of an integer that is not negative; \<open>digits_value\<close>
  reads them; \<open>scale10 m e\<close> is \<open>m\<close> times ten to the \<open>e\<close>; \<open>exponent_part\<close> reads
  an optional exponent.
\<close>

function decimal :: "int \<Rightarrow> string" where
  "decimal n = (if n < 10 then [char_of (48 + n)] else decimal (n div 10) @ [char_of (48 + n mod 10)])"
  by pat_completeness auto
termination
  by (relation "measure nat") auto

declare decimal.simps [simp del]

definition digits_value :: "string \<Rightarrow> int" where
  "digits_value ds = foldl (\<lambda>a c. 10 * a + (of_char c - 48)) 0 ds"

definition scale10 :: "int \<Rightarrow> int \<Rightarrow> rat" where
  "scale10 m e = (if 0 \<le> e then of_int m * 10 ^ nat e else of_int m / 10 ^ nat (- e))"

definition exponent_part :: "string \<Rightarrow> (int \<times> string) option" where
  "exponent_part s =
     (case s of
        [] \<Rightarrow> Some (0, [])
      | c # r \<Rightarrow>
          if c = CHR ''e'' \<or> c = CHR ''E''
          then (let r1 = (if prefix ''-'' r \<or> prefix ''+'' r then tl r else r);
                    ds = takeWhile is_digit r1
                in if ds = [] then None
                   else Some (if prefix ''-'' r then - digits_value ds else digits_value ds,
                              dropWhile is_digit r1))
          else Some (0, s))"

text \<open>
  \<open>JSON.parse\<close> follows the JSON grammar: white space (space, tab, line feed, carriage
  return), \<open>null\<close>, \<open>true\<close>, \<open>false\<close>, numbers (an optional minus, an integer part
  without superfluous zero, an optional fraction, an optional exponent), strings (no raw
  control character, the escapes of the grammar), arrays and objects; what follows the
  value must be white space.
\<close>

definition json_number :: "string \<Rightarrow> (rat \<times> string) option" where
  "json_number s0 =
     (let s = (if prefix ''-'' s0 then tl s0 else s0);
          ip = takeWhile is_digit s;
          r = dropWhile is_digit s;
          fp = (if prefix ''.'' r then takeWhile is_digit (tl r) else []);
          r1 = (if prefix ''.'' r then dropWhile is_digit (tl r) else r)
      in if ip = [] \<or> (1 < length ip \<and> hd ip = CHR ''0'') \<or> (prefix ''.'' r \<and> fp = []) then None
         else (case exponent_part r1 of
                 None \<Rightarrow> None
               | Some (e, r2) \<Rightarrow>
                   Some ((if prefix ''-'' s0 then - 1 else 1)
                           * scale10 (digits_value (ip @ fp)) (e - int (length fp)), r2)))"

definition hex_value :: "char \<Rightarrow> nat option" where
  "hex_value c =
     (let n = (of_char c :: nat) in
      if 48 \<le> n \<and> n \<le> 57 then Some (n - 48)
      else if 65 \<le> n \<and> n \<le> 70 then Some (n - 55)
      else if 97 \<le> n \<and> n \<le> 102 then Some (n - 87)
      else None)"

definition escape_char :: "char \<Rightarrow> char option" where
  "escape_char e =
     (if e = CHR 0x22 \<or> e = CHR 0x5C \<or> e = CHR ''/'' then Some e
      else if e = CHR ''b'' then Some (CHR 0x08)
      else if e = CHR ''f'' then Some (CHR 0x0C)
      else if e = CHR ''n'' then Some (CHR 0x0A)
      else if e = CHR ''r'' then Some (CHR 0x0D)
      else if e = CHR ''t'' then Some (CHR 0x09)
      else None)"

definition code_unit :: "char \<Rightarrow> char \<Rightarrow> char \<Rightarrow> char \<Rightarrow> char option" where
  "code_unit a b c d =
     (case (hex_value a, hex_value b, hex_value c, hex_value d) of
        (Some h3, Some h2, Some h1, Some h0) \<Rightarrow>
          if h3 = 0 \<and> h2 = 0 then Some (char_of (16 * h1 + h0)) else None
      | _ \<Rightarrow> None)"

fun json_chars :: "string \<Rightarrow> (string \<times> string) option" where
  "json_chars [] = None"
| "json_chars [c] = (if c = CHR 0x22 then Some ([], []) else None)"
| "json_chars (c # e # r) =
     (if c = CHR 0x22 then Some ([], e # r)
      else if c = CHR 0x5C then
        (if e = CHR ''u'' then
           (case r of
              a # b # c' # d # r' \<Rightarrow>
                (case code_unit a b c' d of
                   None \<Rightarrow> None
                 | Some u \<Rightarrow> map_option (\<lambda>(str, t). (u # str, t)) (json_chars r'))
            | _ \<Rightarrow> None)
         else (case escape_char e of
                 None \<Rightarrow> None
               | Some x \<Rightarrow> map_option (\<lambda>(str, t). (x # str, t)) (json_chars r)))
      else if (of_char c :: nat) < 32 then None
      else map_option (\<lambda>(str, t). (c # str, t)) (json_chars (e # r)))"

definition is_json_space :: "char \<Rightarrow> bool" where
  "is_json_space c = (c = CHR 0x20 \<or> c = CHR 0x09 \<or> c = CHR 0x0A \<or> c = CHR 0x0D)"

definition skip_space :: "string \<Rightarrow> string" where
  "skip_space s = dropWhile is_json_space s"

text \<open>
  A parsed object holds its members in the order in which the language enumerates them:
  the keys that are array indices first, ascending, then the other keys in the order of
  their first appearance; a repeated key keeps its place and takes the later value.
\<close>

definition is_array_index :: "string \<Rightarrow> bool" where
  "is_array_index k =
     (k \<noteq> [] \<and> list_all is_digit k \<and> (length k = 1 \<or> hd k \<noteq> CHR ''0'')
      \<and> digits_value k < 4294967295)"

definition comes_before :: "string \<Rightarrow> string \<times> js_value \<Rightarrow> bool" where
  "comes_before k p = (is_array_index (fst p) \<and> digits_value (fst p) < digits_value k)"

definition define_property :: "(string \<times> js_value) list \<Rightarrow> string \<times> js_value \<Rightarrow> (string \<times> js_value) list" where
  "define_property ps kv =
     (if fst kv \<in> fst ` set ps then map (\<lambda>p. if fst p = fst kv then kv else p) ps
      else if is_array_index (fst kv)
      then takeWhile (comes_before (fst kv)) ps @ kv # dropWhile (comes_before (fst kv)) ps
      else ps @ [kv])"

text \<open>
  The parser descends recursively: \<open>json_value\<close> reads one value, \<open>json_elements\<close>
  the elements of an array after its opening bracket, \<open>json_members\<close> the members of
  an object after its opening brace; each returns what it read and the rest of the text.
  The comparisons of lengths in \<open>json_elements\<close> and \<open>json_members\<close> make the
  recursion well-founded; they hold whenever they are reached.
\<close>

function json_value :: "string \<Rightarrow> (js_value \<times> string) option"
  and json_elements :: "string \<Rightarrow> (js_value list \<times> string) option"
  and json_members :: "string \<Rightarrow> ((string \<times> js_value) list \<times> string) option"
where
  "json_value s =
     (case skip_space s of
        [] \<Rightarrow> None
      | c # r \<Rightarrow>
          if c = CHR ''['' then
            (if prefix '']'' (skip_space r) then Some (JArr [], tl (skip_space r))
             else map_option (\<lambda>(vs, t). (JArr vs, t)) (json_elements r))
          else if c = CHR ''{'' then
            (if prefix ''}'' (skip_space r) then Some (JObj [], tl (skip_space r))
             else map_option (\<lambda>(ms, t). (JObj (foldl define_property [] ms), t)) (json_members r))
          else if c = CHR 0x22 then map_option (\<lambda>(str, t). (JStr str, t)) (json_chars r)
          else if prefix ''true'' (c # r) then Some (JBool True, drop 3 r)
          else if prefix ''false'' (c # r) then Some (JBool False, drop 4 r)
          else if prefix ''null'' (c # r) then Some (JNull, drop 3 r)
          else map_option (\<lambda>(n, t). (JNum n, t)) (json_number (c # r)))"
| "json_elements s =
     (case json_value s of
        None \<Rightarrow> None
      | Some (v, r) \<Rightarrow>
          if length r < length s then
            (case skip_space r of
               [] \<Rightarrow> None
             | c # r' \<Rightarrow>
                 if c = CHR '','' then map_option (\<lambda>(vs, t). (v # vs, t)) (json_elements r')
                 else if c = CHR '']'' then Some ([v], r')
                 else None)
          else None)"
| "json_members s =
     (case skip_space s of
        [] \<Rightarrow> None
      | c # r \<Rightarrow>
          if c = CHR 0x22 then
            (case json_chars r of
               None \<Rightarrow> None
             | Some (k, r1) \<Rightarrow>
                 if prefix '':'' (skip_space r1) \<and> length (tl (skip_space r1)) < length s then
                   (case json_value (tl (skip_space r1)) of
                      None \<Rightarrow> None
                    | Some (v, r3) \<Rightarrow>
                        if length r3 < length s then
                          (case skip_space r3 of
                             [] \<Rightarrow> None
                           | c3 # r4 \<Rightarrow>
                               if c3 = CHR '','' then map_option (\<lambda>(ms, t). ((k, v) # ms, t)) (json_members r4)
                               else if c3 = CHR ''}'' then Some ([(k, v)], r4)
                               else None)
                        else None)
                 else None)
          else None)"
  by pat_completeness auto
termination
proof -
  have skip: "length r < length s" if "skip_space s = c # r" for s c and r :: string
  proof -
    have "length (skip_space s) \<le> length s" by (simp add: skip_space_def length_dropWhile_le)
    with that show ?thesis by simp
  qed
  show ?thesis
    by (relation "measure (\<lambda>x. case x of Inl s \<Rightarrow> 2 * length s
                                | Inr (Inl s) \<Rightarrow> 2 * length s + 1
                                | Inr (Inr s) \<Rightarrow> 2 * length s + 1)")
       (auto dest!: skip)
qed

declare json_value.simps [simp del] json_elements.simps [simp del] json_members.simps [simp del]

definition json_parse :: "string \<Rightarrow> js_value option" where
  "json_parse text =
     (case json_value text of
        None \<Rightarrow> None
      | Some (v, r) \<Rightarrow> if skip_space r = [] then Some v else None)"

text \<open>
  \<open>JSON.stringify\<close> without indentation. \<open>undefined\<close> has no text (\<open>None\<close>), prints
  as \<open>null\<close> inside an array and is left out of an object. A number prints as
  \<open>Number.prototype.toString\<close> prints it: plain digits when its absolute value is
  below ten to the 21 and not below ten to the minus 6, exponent notation otherwise. A rational without a finite decimal expansion is no number of the language
  (every double has one) and has no text.
\<close>

definition json_escape :: "char \<Rightarrow> string" where
  "json_escape c =
     (if c = CHR 0x22 then [CHR 0x5C, CHR 0x22]
      else if c = CHR 0x5C then [CHR 0x5C, CHR 0x5C]
      else if c = CHR 0x08 then [CHR 0x5C, CHR ''b'']
      else if c = CHR 0x0C then [CHR 0x5C, CHR ''f'']
      else if c = CHR 0x0A then [CHR 0x5C, CHR ''n'']
      else if c = CHR 0x0D then [CHR 0x5C, CHR ''r'']
      else if c = CHR 0x09 then [CHR 0x5C, CHR ''t'']
      else if (of_char c :: nat) < 32
      then [CHR 0x5C, CHR ''u'', CHR ''0'', CHR ''0'', if (of_char c :: nat) < 16 then CHR ''0'' else CHR ''1'',
            (''0123456789abcdef'') ! ((of_char c :: nat) mod 16)]
      else [c])"

definition json_quote :: "string \<Rightarrow> string" where
  "json_quote str = [CHR 0x22] @ concat (map json_escape str) @ [CHR 0x22]"

function decimal_places :: "rat \<Rightarrow> nat \<Rightarrow> nat option" where
  "decimal_places r k =
     (if r * 10 ^ k = of_int \<lfloor>r * 10 ^ k\<rfloor> then Some k
      else if snd (quotient_of r) < 2 ^ k then None
      else decimal_places r (Suc k))"
  by pat_completeness auto
termination
proof (relation "measure (\<lambda>(r, k). Suc (nat (snd (quotient_of r))) - 2 ^ k)")
  fix r :: rat and k :: nat
  assume "\<not> snd (quotient_of r) < 2 ^ k"
  then have "int (2 ^ k) \<le> snd (quotient_of r)" by simp
  then have "(2::nat) ^ k \<le> nat (snd (quotient_of r))" by linarith
  moreover have "(0::nat) < 2 ^ k" by simp
  ultimately have "Suc (nat (snd (quotient_of r))) - 2 * 2 ^ k < Suc (nat (snd (quotient_of r))) - 2 ^ k"
    by linarith
  then show "((r, Suc k), (r, k)) \<in> measure (\<lambda>(r, k). Suc (nat (snd (quotient_of r))) - 2 ^ k)"
    by simp
qed simp

declare decimal_places.simps [simp del]

definition number_text :: "rat \<Rightarrow> string option" where
  "number_text r =
     (if r = 0 then Some ''0''
      else (case decimal_places r 0 of
              None \<Rightarrow> None
            | Some k \<Rightarrow>
               (let all_digits = decimal \<lfloor>\<bar>r\<bar> * 10 ^ k\<rfloor>;
                    ds = rev (dropWhile (\<lambda>c. c = CHR ''0'') (rev all_digits));
                    n = int (length all_digits) - int k;
                    sign = (if r < 0 then ''-'' else [])
                in Some (sign @
                     (if int (length ds) \<le> n \<and> n \<le> 21 then ds @ replicate (nat n - length ds) (CHR ''0'')
                      else if 0 < n \<and> n \<le> 21 then take (nat n) ds @ ''.'' @ drop (nat n) ds
                      else if - 6 < n \<and> n \<le> 0 then ''0.'' @ replicate (nat (- n)) (CHR ''0'') @ ds
                      else (if length ds = 1 then ds else [hd ds] @ ''.'' @ tl ds)
                           @ ''e'' @ (if 0 \<le> n - 1 then ''+'' else ''-'') @ decimal \<bar>n - 1\<bar>)))))"

fun json_text :: "js_value \<Rightarrow> string option" where
  "json_text JUndefined = None"
| "json_text JNull = Some ''null''"
| "json_text (JBool b) = Some (if b then ''true'' else ''false'')"
| "json_text (JNum r) = number_text r"
| "json_text (JStr str) = Some (json_quote str)"
| "json_text (JArr xs) =
     Some (''['' @ js_join '','' (map (\<lambda>x. case json_text x of None \<Rightarrow> ''null'' | Some t \<Rightarrow> t) xs) @ '']'')"
| "json_text (JObj ps) =
     Some (''{'' @ js_join '',''
             (concat (map (\<lambda>p. case json_text (snd p) of
                                  None \<Rightarrow> []
                                | Some t \<Rightarrow> [json_quote (fst p) @ '':'' @ t]) ps)) @ ''}'')"

text \<open>
  \<open>Number(str)\<close>: white space around the text is dropped; the empty text is 0; then a
  hexadecimal, octal or binary literal without sign, or a decimal literal with optional
  sign, with digits before or after an optional point and an optional exponent. Anything
  else is \<open>NaN\<close> (\<open>None\<close>).
\<close>

definition radix_value :: "nat \<Rightarrow> string \<Rightarrow> int option" where
  "radix_value b ds =
     (if ds \<noteq> [] \<and> list_all (\<lambda>c. case hex_value c of None \<Rightarrow> False | Some h \<Rightarrow> h < b) ds
      then Some (foldl (\<lambda>a c. int b * a + (case hex_value c of None \<Rightarrow> 0 | Some h \<Rightarrow> int h)) 0 ds)
      else None)"

definition number_of_text :: "string \<Rightarrow> rat option" where
  "number_of_text str =
     (let s = trim str in
      if s = [] then Some 0
      else if prefix ''0x'' s \<or> prefix ''0X'' s then map_option of_int (radix_value 16 (drop 2 s))
      else if prefix ''0o'' s \<or> prefix ''0O'' s then map_option of_int (radix_value 8 (drop 2 s))
      else if prefix ''0b'' s \<or> prefix ''0B'' s then map_option of_int (radix_value 2 (drop 2 s))
      else (let u = (if prefix ''-'' s \<or> prefix ''+'' s then tl s else s);
                ip = takeWhile is_digit u;
                r = dropWhile is_digit u;
                fp = (if prefix ''.'' r then takeWhile is_digit (tl r) else []);
                r1 = (if prefix ''.'' r then dropWhile is_digit (tl r) else r)
            in if ip = [] \<and> fp = [] then None
               else (case exponent_part r1 of
                       Some (e, []) \<Rightarrow>
                         Some ((if prefix ''-'' s then - 1 else 1)
                                 * scale10 (digits_value (ip @ fp)) (e - int (length fp)))
                     | _ \<Rightarrow> None)))"

definition decimal_builtins :: js_builtins where
  "decimal_builtins = \<lparr>JSON_parse = json_parse, JSON_stringify = json_text, to_Number = number_of_text\<rparr>"

subsection \<open>Solutions and execution services\<close>

text \<open>
  A solution that prints \<open>1\<close> and leaves the interpreter before the test invocation is
  reached, and the execution service's answer to the program built around it.
\<close>

definition exit_early_solution :: string where
  "exit_early_solution = ''import sys\<newline>print(1)\<newline>sys.exit(0)''"

definition exit_early_judge :: judge where
  "exit_early_judge program languageId =
     (if languageId = 71 \<and> prefix (''from typing import List\<newline>import json\<newline>\<newline>'' @ exit_early_solution @ [NL]) program
      then Inr \<lparr>status_id = Some 3, status_description = Some ''Accepted'',
                stdout = Some ''1\<newline>'', stderr = None, time = None, memory = None\<rparr>
      else Inl ''outside the scenario'')"

text \<open>
  A solution that defines the class and prints nothing, and the execution service's
  answer to the program built around it for an unsupported parameter count: the line the
  test invocation prints.
\<close>

definition quiet_solution :: string where
  "quiet_solution = ''class Solution:\<newline>    pass''"

definition quiet_judge :: judge where
  "quiet_judge program languageId =
     (if languageId = 71 \<and> program = unsupported_program quiet_solution
      then Inr \<lparr>status_id = Some 3, status_description = Some ''Accepted'',
                stdout = Some ''Error: Unsupported parameter count\<newline>'', stderr = None,
                time = None, memory = None\<rparr>
      else Inl ''outside the scenario'')"

text \<open>A class as plain text, with white space around it and no markdown.\<close>

definition clean_class :: string where
  "clean_class = ''  class Solution:\<newline>    def f(self):\<newline>        return 1\<newline>''"

section \<open>Properties\<close>

subsection \<open>Improvement classifier\<close>

text \<open>
  Claim C8. The improvement classifier is a function of \<open>(delta, new_score)\<close> alone.
  Its five tags are told apart by the thresholds, tried in this order: the tag is
  \<open>problem_solved\<close> exactly when the new score is 100; otherwise
  \<open>major_algorithm_fix\<close> exactly when the delta is at least 50;
  otherwise \<open>significant_bug_fix\<close> exactly when the delta is at least 20; otherwise
  \<open>minor_improvement\<close> exactly when the delta is positive; and \<open>no_improvement\<close>
  in the remaining case.
\<close>

theorem determineImprovementStrategy_thresholds:
  "(determineImprovementStrategy delta new_score = ''problem_solved'') = (new_score = 100)
   \<and> (determineImprovementStrategy delta new_score = ''major_algorithm_fix'')
       = (new_score \<noteq> 100 \<and> delta \<ge> 50)
   \<and> (determineImprovementStrategy delta new_score = ''significant_bug_fix'')
       = (new_score \<noteq> 100 \<and> delta < 50 \<and> delta \<ge> 20)
   \<and> (determineImprovementStrategy delta new_score = ''minor_improvement'')
       = (new_score \<noteq> 100 \<and> delta < 20 \<and> delta > 0)
   \<and> (determineImprovementStrategy delta new_score = ''no_improvement'')
       = (new_score \<noteq> 100 \<and> delta \<le> 0)"
  by (auto simp add: determineImprovementStrategy_def)

subsection \<open>The attempt loop, step by step\<close>

lemma attempt_loop_done:
  "max_attempts session < currentAttempt \<Longrightarrow>
   attempt_loop env language session currentAttempt best db = (currentAttempt, best, db)"
  by (subst attempt_loop.simps) simp

lemma attempt_loop_throw:
  "currentAttempt \<le> max_attempts session \<Longrightarrow> attempt_outcome env language currentAttempt = None \<Longrightarrow>
   attempt_loop env language session currentAttempt best db
     = attempt_loop env language session (currentAttempt + 1) best db"
  by (subst attempt_loop.simps) (auto simp add: attempt_outcome_def split: option.splits)

lemma attempt_loop_tested:
  "currentAttempt \<le> max_attempts session \<Longrightarrow>
   attempt_outcome env language currentAttempt = Some (g, r) \<Longrightarrow>
   attempt_loop env language session currentAttempt best db
     = (if success_rate r = 100
        then (currentAttempt, (if success_rate r > best then success_rate r else best),
              update_session (record_attempt session language currentAttempt best g r db) (id' session)
                (\<lambda>s. s\<lparr>status := solved, completed := True\<rparr>))
        else attempt_loop env language session (currentAttempt + 1)
               (if success_rate r > best then success_rate r else best)
               (record_attempt session language currentAttempt best g r db))"
  by (subst attempt_loop.simps)
     (auto simp add: attempt_outcome_def record_attempt_def Let_def split: option.splits)

lemma find_map_update:
  "(\<And>s. id' (f s) = id' s) \<Longrightarrow>
   find (\<lambda>s. id' s = sid') (map (\<lambda>s. if id' s = sid then f s else s) rows)
     = (if sid' = sid then map_option f (find (\<lambda>s. id' s = sid) rows)
        else find (\<lambda>s. id' s = sid') rows)"
  by (induction rows) auto

lemma find_session_update:
  "(\<And>s. id' (f s) = id' s) \<Longrightarrow>
   find_session (update_session db sid f) sid'
     = (if sid' = sid then map_option f (find_session db sid) else find_session db sid')"
  unfolding find_session_def update_session_def
  using find_map_update [of f sid' sid "reinforcement_sessions db"] by simp

lemma find_session_store [simp]:
  "find_session (storeSolutionAttempt db sid pid n g r l) sid' = find_session db sid'"
  by (simp add: find_session_def storeSolutionAttempt_def)

lemma find_session_log [simp]:
  "find_session (logImprovement db sid a b x y) sid' = find_session db sid'"
  by (simp add: find_session_def logImprovement_def Let_def)

lemma logs_update_session [simp]:
  "improvement_logs (update_session db sid f) = improvement_logs db"
  by (simp add: update_session_def)

lemma attempts_update_session [simp]:
  "solution_attempts (update_session db sid f) = solution_attempts db"
  by (simp add: update_session_def)

lemma logs_store [simp]:
  "improvement_logs (storeSolutionAttempt db sid pid n g r l) = improvement_logs db"
  by (simp add: storeSolutionAttempt_def)

lemma attempts_log [simp]:
  "solution_attempts (logImprovement db sid a b x y) = solution_attempts db"
  by (simp add: logImprovement_def Let_def)

lemma find_session_record_attempt:
  "find_session (record_attempt session language n best g r db) (id' session)
     = map_option (\<lambda>s. s\<lparr>total_attempts := n,
                          best_success_rate := (if success_rate r > best then success_rate r else best),
                          status := (if success_rate r = 100 then solved else in_progress)\<rparr>)
         (find_session db (id' session))"
  by (simp add: record_attempt_def Let_def find_session_update)

lemma logs_record_attempt:
  "improvement_logs (record_attempt session language n best g r db)
     = improvement_logs db @
       (if success_rate r > best \<and> n > 1
        then [\<lparr>log_session_id = id' session, from_attempt = n - 1, to_attempt = n,
               changes_made = Improved_from_to (best_success_rate session) (success_rate r)
                                (success_rate r - best_success_rate session),
               improvement_strategy =
                 determineImprovementStrategy (success_rate r - best_success_rate session)
                   (success_rate r)\<rparr>]
        else [])"
  by (simp add: record_attempt_def Let_def logImprovement_def)

lemma attempt_score_Some:
  "attempt_score env language n = Some x \<Longrightarrow>
   \<exists>g r. attempt_outcome env language n = Some (g, r) \<and> success_rate r = x"
  by (auto simp: attempt_score_def)

subsection \<open>The scenario 40, 40, 100\<close>

text \<open>
  Claim C1. A session with attempt budget 3 whose attempts score 40, 40 and 100 in order.
  After the run the stored session has status \<open>solved\<close> and 3 attempts consumed, and
  the run has added exactly one Improvement Log Entry, tagged \<open>problem_solved\<close>, from
  attempt 2 to attempt 3. The report the run returns says otherwise: its status is the
  one the session had before the loop (\<open>in_progress\<close>), and its attempt counts are 2,
  because the loop leaves at the solved attempt without advancing its counter and the
  report subtracts one.
\<close>

theorem run_40_40_100:
  assumes stored: "find_session db (id' s) = Some s"
    and fresh: "total_attempts s = 0" "best_success_rate s = 0" "status s = in_progress"
    and budget: "max_attempts s = 3"
    and scores: "attempt_score env language 1 = Some 40" "attempt_score env language 2 = Some 40"
      "attempt_score env language 3 = Some 100"
  shows "map_option status (find_session (snd (runReinforcementLoop env db s language)) (id' s)) = Some solved
       \<and> map_option total_attempts (find_session (snd (runReinforcementLoop env db s language)) (id' s)) = Some 3
       \<and> improvement_logs (snd (runReinforcementLoop env db s language))
           = improvement_logs db @
             [\<lparr>log_session_id = id' s, from_attempt = 2, to_attempt = 3,
               changes_made = Improved_from_to 0 100 100, improvement_strategy = ''problem_solved''\<rparr>]
       \<and> r_status (fst (runReinforcementLoop env db s language)) = in_progress
       \<and> current_attempt (fst (runReinforcementLoop env db s language)) = 2
       \<and> r_total_attempts (fst (runReinforcementLoop env db s language)) = Some 2"
proof -
  obtain g1 r1 where o1: "attempt_outcome env language 1 = Some (g1, r1)" and r1: "success_rate r1 = 40"
    using attempt_score_Some [OF scores(1)] by blast
  obtain g2 r2 where o2: "attempt_outcome env language 2 = Some (g2, r2)" and r2: "success_rate r2 = 40"
    using attempt_score_Some [OF scores(2)] by blast
  obtain g3 r3 where o3: "attempt_outcome env language 3 = Some (g3, r3)" and r3: "success_rate r3 = 100"
    using attempt_score_Some [OF scores(3)] by blast
  define db1 where "db1 = record_attempt s language 1 0 g1 r1 db"
  define db2 where "db2 = record_attempt s language 2 40 g2 r2 db1"
  define db3 where "db3 = record_attempt s language 3 40 g3 r3 db2"
  define db4 where "db4 = update_session db3 (id' s) (\<lambda>s. s\<lparr>status := solved, completed := True\<rparr>)"
  have step3: "attempt_loop env language s 3 40 db2 = (3, 100, db4)"
    using attempt_loop_tested [of 3 s env language g3 r3 40 db2] o3 r3 budget
    by (simp add: db3_def db4_def)
  have step2: "attempt_loop env language s 2 40 db1 = (3, 100, db4)"
    using attempt_loop_tested [of 2 s env language g2 r2 40 db1] o2 r2 budget step3
    by (simp add: db2_def)
  have step1: "attempt_loop env language s 1 0 db = (3, 100, db4)"
    using attempt_loop_tested [of 1 s env language g1 r1 0 db] o1 r1 budget step2
    by (simp add: db1_def)
  have run: "runReinforcementLoop env db s language
    = ((buildResponse db4 (s\<lparr>total_attempts := 2, best_success_rate := 100\<rparr>))
          \<lparr>final_success_rate := Some 100, r_total_attempts := Some 2,
           final_solution := map_option (\<lambda>a. \<lparr>fs_code = generated_code a,
                                                  fs_reasoning = reasoning_content a,
                                                  fs_success_rate = attempt_success_rate a\<rparr>)
                                  (latest_attempt db4 (id' s))\<rparr>, db4)"
    using step1 fresh budget by (simp add: runReinforcementLoop_def Let_def)
  have logs1: "improvement_logs db1 = improvement_logs db"
    by (simp add: db1_def logs_record_attempt)
  have logs2: "improvement_logs db2 = improvement_logs db"
    by (simp add: db2_def logs_record_attempt r2 logs1)
  have logs3: "improvement_logs db3 = improvement_logs db @
             [\<lparr>log_session_id = id' s, from_attempt = 2, to_attempt = 3,
               changes_made = Improved_from_to 0 100 100, improvement_strategy = ''problem_solved''\<rparr>]"
    by (simp add: db3_def logs_record_attempt r3 logs2 fresh determineImprovementStrategy_def)
  have sess: "find_session db4 (id' s)
     = Some (s\<lparr>total_attempts := 3, best_success_rate := 100, status := solved, completed := True\<rparr>)"
    by (simp add: db4_def db3_def db2_def db1_def find_session_update find_session_record_attempt
        stored r1 r2 r3)
  have logs4: "improvement_logs db4 = improvement_logs db @
             [\<lparr>log_session_id = id' s, from_attempt = 2, to_attempt = 3,
               changes_made = Improved_from_to 0 100 100, improvement_strategy = ''problem_solved''\<rparr>]"
    by (simp add: db4_def logs3)
  show ?thesis
    by (simp add: run sess logs4 buildResponse_def Let_def fresh)
qed

theorem run_40_40_100_witness:
  "attempt_score (scripted_services script_40_40_100) ''python'' 1 = Some 40
   \<and> attempt_score (scripted_services script_40_40_100) ''python'' 2 = Some 40
   \<and> attempt_score (scripted_services script_40_40_100) ''python'' 3 = Some 100
   \<and> map_option status (find_session (snd (runReinforcementLoop (scripted_services script_40_40_100)
         (store_with (new_session 1 7 3)) (new_session 1 7 3) ''python'')) (id' (new_session 1 7 3)))
       = Some solved
   \<and> map_option total_attempts (find_session (snd (runReinforcementLoop (scripted_services script_40_40_100)
         (store_with (new_session 1 7 3)) (new_session 1 7 3) ''python'')) (id' (new_session 1 7 3)))
       = Some 3
   \<and> improvement_logs (snd (runReinforcementLoop (scripted_services script_40_40_100)
         (store_with (new_session 1 7 3)) (new_session 1 7 3) ''python''))
       = improvement_logs (store_with (new_session 1 7 3)) @
         [\<lparr>log_session_id = id' (new_session 1 7 3), from_attempt = 2, to_attempt = 3,
           changes_made = Improved_from_to 0 100 100, improvement_strategy = ''problem_solved''\<rparr>]
   \<and> r_status (fst (runReinforcementLoop (scripted_services script_40_40_100)
         (store_with (new_session 1 7 3)) (new_session 1 7 3) ''python'')) = in_progress
   \<and> current_attempt (fst (runReinforcementLoop (scripted_services script_40_40_100)
         (store_with (new_session 1 7 3)) (new_session 1 7 3) ''python'')) = 2
   \<and> r_total_attempts (fst (runReinforcementLoop (scripted_services script_40_40_100)
         (store_with (new_session 1 7 3)) (new_session 1 7 3) ''python'')) = Some 2"
proof -
  have stored: "find_session (store_with (new_session 1 7 3)) (id' (new_session 1 7 3)) = Some (new_session 1 7 3)"
    by (simp add: find_session_def store_with_def new_session_def)
  have s1: "attempt_score (scripted_services script_40_40_100) ''python'' 1 = Some 40"
    by code_simp
  have s2: "attempt_score (scripted_services script_40_40_100) ''python'' 2 = Some 40"
    by code_simp
  have s3: "attempt_score (scripted_services script_40_40_100) ''python'' 3 = Some 100"
    by code_simp
  have fresh: "total_attempts (new_session 1 7 3) = 0" "best_success_rate (new_session 1 7 3) = 0"
    "status (new_session 1 7 3) = in_progress" "max_attempts (new_session 1 7 3) = 3"
    by (simp_all add: new_session_def)
  show ?thesis
    using run_40_40_100 [OF stored fresh(1) fresh(2) fresh(3) fresh(4) s1 s2 s3] s1 s2 s3
    by blast
qed

subsection \<open>Budget exhausted after an attempt that threw\<close>

text \<open>
  Claim C4. A new session with attempt budget 2 whose first attempt passes 1 test of 2 and
  whose second attempt throws. The run sets the stored status to
  \<open>max_attempts_reached\<close>, and the report counts 2 attempts, but the stored
  \<open>total_attempts\<close> stays 1: only an attempt that completes writes it.
\<close>

theorem max_attempts_after_throw:
  "map_option status (find_session (snd (serve (scripted_services script_50_throw) empty_store (new_request 7 2))) 1)
     = Some max_attempts_reached
   \<and> map_option total_attempts (find_session (snd (serve (scripted_services script_50_throw) empty_store (new_request 7 2))) 1)
     = Some 1
   \<and> map_option max_attempts (find_session (snd (serve (scripted_services script_50_throw) empty_store (new_request 7 2))) 1)
     = Some 2
   \<and> map_option r_total_attempts (projr_opt (fst (serve (scripted_services script_50_throw) empty_store (new_request 7 2))))
     = Some (Some 2)"
  by code_simp

subsection \<open>When an improvement is logged\<close>

lemma made_simps:
  "made [] k = False"
  "made (x # rest) 0 = True"
  "made (x # rest) (Suc j) = (x \<noteq> Some 100 \<and> made rest j)"
  by (auto simp: made_def)

lemma exceeds_best_simps:
  "exceeds_best best (None # rest) 0 = False"
  "exceeds_best best (Some r # rest) 0 = (r > best)"
  "exceeds_best best (None # rest) (Suc j) = exceeds_best best rest j"
  "exceeds_best best (Some r # rest) (Suc j) = exceeds_best (max r best) rest j"
  by (simp_all add: exceeds_best_def best_before_def map_filter_simps split: option.splits)

lemma logs_improvement_iff:
  "logs_improvement n best scores
     = (\<exists>k. made scores k \<and> n + int k > 1 \<and> exceeds_best best scores k)"
proof (induction n best scores rule: logs_improvement.induct)
  case (1 n best)
  then show ?case by (simp add: made_simps)
next
  case (2 n best rest)
  have "(\<exists>k. made (None # rest) k \<and> n + int k > 1 \<and> exceeds_best best (None # rest) k)
      = (\<exists>j. made rest j \<and> n + 1 + int j > 1 \<and> exceeds_best best rest j)" (is "?L = ?R")
  proof
    assume ?L
    then obtain k where k: "made (None # rest) k" "n + int k > 1" "exceeds_best best (None # rest) k"
      by blast
    from k(3) obtain j where j: "k = Suc j"
      by (cases k) (auto simp: exceeds_best_simps)
    with k show ?R
      by (intro exI[of _ j]) (auto simp: made_simps exceeds_best_simps)
  next
    assume ?R
    then obtain j where "made rest j" "n + 1 + int j > 1" "exceeds_best best rest j" by blast
    then show ?L
      by (intro exI[of _ "Suc j"]) (auto simp: made_simps exceeds_best_simps)
  qed
  with 2 show ?case by simp
next
  case (3 n best r rest)
  have "(\<exists>k. made (Some r # rest) k \<and> n + int k > 1 \<and> exceeds_best best (Some r # rest) k)
      = ((r > best \<and> n > 1)
         \<or> (r \<noteq> 100 \<and> (\<exists>j. made rest j \<and> n + 1 + int j > 1 \<and> exceeds_best (max r best) rest j)))"
    (is "?L = ?R")
  proof
    assume ?L
    then obtain k where k: "made (Some r # rest) k" "n + int k > 1" "exceeds_best best (Some r # rest) k"
      by blast
    show ?R
    proof (cases k)
      case 0
      with k show ?thesis by (simp add: exceeds_best_simps)
    next
      case (Suc j)
      with k have "r \<noteq> 100 \<and> made rest j \<and> n + 1 + int j > 1 \<and> exceeds_best (max r best) rest j"
        by (auto simp: made_simps exceeds_best_simps)
      then show ?thesis by blast
    qed
  next
    assume ?R
    then show ?L
    proof
      assume "r > best \<and> n > 1"
      then show ?L
        by (intro exI[of _ 0]) (simp add: made_simps exceeds_best_simps)
    next
      assume "r \<noteq> 100 \<and> (\<exists>j. made rest j \<and> n + 1 + int j > 1 \<and> exceeds_best (max r best) rest j)"
      then obtain j where "r \<noteq> 100" "made rest j" "n + 1 + int j > 1" "exceeds_best (max r best) rest j"
        by blast
      then show ?L
        by (intro exI[of _ "Suc j"]) (auto simp: made_simps exceeds_best_simps)
    qed
  qed
  with 3 show ?case by simp
qed

lemma attempt_loop_logs:
  "\<exists>new. improvement_logs (snd (snd (attempt_loop env language s n best db))) = improvement_logs db @ new
         \<and> (new \<noteq> []) = logs_improvement n best (map (attempt_score env language) [n..max_attempts s])"
proof (induction env language s n best db rule: attempt_loop.induct)
  case (1 env language session n best db)
  show ?case
  proof (cases "n \<le> max_attempts session")
    case False
    then show ?thesis
      by (simp add: attempt_loop_done)
  next
    case le: True
    then have range: "[n..max_attempts session] = n # [n + 1..max_attempts session]"
      by (simp add: upto_rec1)
    show ?thesis
    proof (cases "attempt_outcome env language n")
      case None
      then have gen: "generateSolutionWithContext env n = None
          \<or> (\<exists>g. generateSolutionWithContext env n = Some g \<and> testGeneratedSolution env n (code g) language = None)"
        by (auto simp: attempt_outcome_def split: option.splits)
      have score: "attempt_score env language n = None"
        using None by (simp add: attempt_score_def)
      from gen have "\<exists>new. improvement_logs (snd (snd (attempt_loop env language session (n + 1) best db)))
                     = improvement_logs db @ new
         \<and> (new \<noteq> []) = logs_improvement (n + 1) best
                            (map (attempt_score env language) [n + 1..max_attempts session])"
        using "1.IH"(1) "1.IH"(2) le by blast
      then show ?thesis
        using attempt_loop_throw [OF le None] range score by simp
    next
      case (Some out)
      obtain g r where out: "out = (g, r)" by (cases out)
      have o: "attempt_outcome env language n = Some (g, r)" using Some out by simp
      have gen: "generateSolutionWithContext env n = Some g"
        and test: "testGeneratedSolution env n (code g) language = Some r"
        using o by (auto simp: attempt_outcome_def split: option.splits)
      have score: "attempt_score env language n = Some (success_rate r)"
        using o by (simp add: attempt_score_def)
      let ?best = "if success_rate r > best then success_rate r else best"
      let ?db = "record_attempt session language n best g r db"
      have logs: "improvement_logs ?db = improvement_logs db @
                    (if success_rate r > best \<and> n > 1
                     then [\<lparr>log_session_id = id' session, from_attempt = n - 1, to_attempt = n,
                            changes_made = Improved_from_to (best_success_rate session) (success_rate r)
                                (success_rate r - best_success_rate session),
                            improvement_strategy =
                              determineImprovementStrategy (success_rate r - best_success_rate session)
                                (success_rate r)\<rparr>]
                     else [])"
        by (rule logs_record_attempt)
      have max: "?best = max (success_rate r) best" by (simp add: max_def)
      show ?thesis
      proof (cases "success_rate r = 100")
        case True
        then show ?thesis
          using attempt_loop_tested [OF le o, of best db] logs range score by auto
      next
        case False
        have eq: "attempt_loop env language session n best db
            = attempt_loop env language session (n + 1) ?best ?db"
          using attempt_loop_tested [OF le o, of best db] False by simp
        have "\<exists>new. improvement_logs (snd (snd (attempt_loop env language session (n + 1) ?best ?db)))
                     = improvement_logs ?db @ new
           \<and> (new \<noteq> []) = logs_improvement (n + 1) ?best
                            (map (attempt_score env language) [n + 1..max_attempts session])"
          using "1.IH"(3) [OF le gen test refl refl refl refl refl False]
          by (simp add: record_attempt_def Let_def)
        then obtain new where new:
          "improvement_logs (snd (snd (attempt_loop env language session (n + 1) ?best ?db)))
                     = improvement_logs ?db @ new"
          "(new \<noteq> []) = logs_improvement (n + 1) ?best
                            (map (attempt_score env language) [n + 1..max_attempts session])"
          by blast
        show ?thesis
          using new logs False unfolding eq range max
          by (auto simp: score)
      qed
    qed
  qed
qed

text \<open>
  Claim C3, as the code has it. A run adds an Improvement Log Entry if and only if some
  attempt of the run other than attempt number 1 is made, completes and scores strictly
  above the best score so far: the session's stored best at the start of the run, raised
  by the earlier attempts of the run. Attempt number 1 is never logged.
\<close>

theorem improvement_logged_iff:
  "(improvement_logs (snd (runReinforcementLoop env db s language)) \<noteq> improvement_logs db)
     = (\<exists>k. made (attempt_scores env language s) k \<and> total_attempts s + 1 + int k > 1
            \<and> exceeds_best (best_success_rate s) (attempt_scores env language s) k)"
proof -
  obtain n best db1 where loop:
    "attempt_loop env language s (total_attempts s + 1) (best_success_rate s) db = (n, best, db1)"
    by (cases "attempt_loop env language s (total_attempts s + 1) (best_success_rate s) db") auto
  obtain new where new: "improvement_logs db1 = improvement_logs db @ new"
    "(new \<noteq> []) = logs_improvement (total_attempts s + 1) (best_success_rate s)
                      (attempt_scores env language s)"
    using attempt_loop_logs [of env language s "total_attempts s + 1" "best_success_rate s" db] loop
    by (auto simp: attempt_scores_def)
  have "improvement_logs (snd (runReinforcementLoop env db s language)) = improvement_logs db1"
    by (simp add: runReinforcementLoop_def loop Let_def)
  then show ?thesis
    using new logs_improvement_iff [of "total_attempts s + 1" "best_success_rate s" "attempt_scores env language s"]
    by auto
qed

text \<open>
  The claim as stated fails at a first attempt: it scores 40, above the initial best 0,
  and no entry is written.
\<close>

theorem first_attempt_not_logged:
  "made (attempt_scores (scripted_services script_40) ''python'' (new_session 1 7 1)) 0
   \<and> exceeds_best 0 (attempt_scores (scripted_services script_40) ''python'' (new_session 1 7 1)) 0
   \<and> improvement_logs (snd (serve (scripted_services script_40) empty_store (new_request 7 1))) = []"
  by code_simp

theorem improvement_logged_iff_witness:
  "made (attempt_scores (scripted_services script_40_40_100) ''python'' (new_session 1 7 3)) 2
   \<and> exceeds_best 0 (attempt_scores (scripted_services script_40_40_100) ''python'' (new_session 1 7 3)) 2
   \<and> improvement_logs (snd (runReinforcementLoop (scripted_services script_40_40_100)
         (store_with (new_session 1 7 3)) (new_session 1 7 3) ''python''))
       \<noteq> improvement_logs (store_with (new_session 1 7 3))"
proof -
  have m: "made (attempt_scores (scripted_services script_40_40_100) ''python'' (new_session 1 7 3)) 2"
    by code_simp
  have e: "exceeds_best 0 (attempt_scores (scripted_services script_40_40_100) ''python'' (new_session 1 7 3)) 2"
    by code_simp
  have fresh: "total_attempts (new_session 1 7 3) = 0" "best_success_rate (new_session 1 7 3) = 0"
    by (simp_all add: new_session_def)
  have "\<exists>k. made (attempt_scores (scripted_services script_40_40_100) ''python'' (new_session 1 7 3)) k
          \<and> total_attempts (new_session 1 7 3) + 1 + int k > 1
          \<and> exceeds_best (best_success_rate (new_session 1 7 3))
               (attempt_scores (scripted_services script_40_40_100) ''python'' (new_session 1 7 3)) k"
  proof (intro exI[of _ 2] conjI)
    show "made (attempt_scores (scripted_services script_40_40_100) ''python'' (new_session 1 7 3)) 2"
      by (rule m)
    show "total_attempts (new_session 1 7 3) + 1 + int 2 > 1"
      by (simp add: new_session_def)
    show "exceeds_best (best_success_rate (new_session 1 7 3))
               (attempt_scores (scripted_services script_40_40_100) ''python'' (new_session 1 7 3)) 2"
      unfolding fresh(2) by (rule e)
  qed
  then show ?thesis
    using improvement_logged_iff [of "scripted_services script_40_40_100" "store_with (new_session 1 7 3)"
        "new_session 1 7 3" "''python''"] m e
    by blast
qed

subsection \<open>What the report shows as the latest solution\<close>

lemma newest_in: "newest a bs \<in> set (a # bs)"
  by (induction bs arbitrary: a) auto

lemma newest_ge: "attempt_number a \<le> attempt_number (newest a bs)"
proof (induction bs arbitrary: a)
  case Nil
  then show ?case by simp
next
  case (Cons c bs)
  have "attempt_number a \<le> attempt_number (if attempt_number c > attempt_number a then c else a)"
    by simp
  also have "\<dots> \<le> attempt_number (newest (if attempt_number c > attempt_number a then c else a) bs)"
    by (rule Cons.IH)
  finally show ?case by simp
qed

lemma newest_max: "b \<in> set (a # bs) \<Longrightarrow> attempt_number b \<le> attempt_number (newest a bs)"
proof (induction bs arbitrary: a)
  case Nil
  then show ?case by simp
next
  case (Cons c bs)
  let ?k = "if attempt_number c > attempt_number a then c else a"
  have k: "attempt_number a \<le> attempt_number ?k" "attempt_number c \<le> attempt_number ?k"
    by simp_all
  have ge: "attempt_number ?k \<le> attempt_number (newest ?k bs)"
    by (rule newest_ge)
  consider "b = a" | "b = c" | "b \<in> set bs"
    using Cons.prems by auto
  then show ?case
  proof cases
    case 1
    then show ?thesis using k(1) ge by simp
  next
    case 2
    then show ?thesis using k(2) ge by simp
  next
    case 3
    then have "b \<in> set (?k # bs)" by simp
    from Cons.IH [OF this] show ?thesis by simp
  qed
qed

lemma latest_attempt_None:
  "(latest_attempt db sid = None) = (filter (\<lambda>a. session_id a = sid) (solution_attempts db) = [])"
  by (simp add: latest_attempt_def split: list.splits)

lemma latest_attempt_Some:
  assumes "latest_attempt db sid = Some a"
  shows "a \<in> set (solution_attempts db) \<and> session_id a = sid
       \<and> (\<forall>b\<in>set (solution_attempts db). session_id b = sid \<longrightarrow> attempt_number b \<le> attempt_number a)"
proof -
  obtain x xs where f: "filter (\<lambda>a. session_id a = sid) (solution_attempts db) = x # xs"
    and a: "a = newest x xs"
    using assms by (auto simp: latest_attempt_def split: list.splits)
  have "a \<in> set (filter (\<lambda>a. session_id a = sid) (solution_attempts db))"
    using newest_in [of x xs] f a by simp
  moreover have "attempt_number b \<le> attempt_number a"
    if "b \<in> set (filter (\<lambda>a. session_id a = sid) (solution_attempts db))" for b
    using newest_max [of b x xs] that f a by simp
  ultimately show ?thesis by auto
qed

lemma buildResponse_latest:
  "r_session_id (buildResponse db s) = id' s
   \<and> r_latest_solution (buildResponse db s)
       = (case latest_attempt db (id' s) of None \<Rightarrow> no_solution | Some a \<Rightarrow> solution_view a)"
  by (simp add: buildResponse_def Let_def no_solution_def solution_view_def split: option.splits)

lemma runReinforcementLoop_latest:
  "runReinforcementLoop env db s language = (resp, db') \<Longrightarrow>
   r_session_id resp = id' s
   \<and> r_latest_solution resp
       = (case latest_attempt db' (id' s) of None \<Rightarrow> no_solution | Some a \<Rightarrow> solution_view a)"
  using buildResponse_latest
  by (auto simp: runReinforcementLoop_def Let_def split: prod.splits)

lemma serve_latest:
  assumes "serve env db req = (Inr resp, db')"
  shows "r_latest_solution resp
       = (case latest_attempt db' (r_session_id resp) of None \<Rightarrow> no_solution | Some a \<Rightarrow> solution_view a)"
proof -
  from assms obtain pid where pid: "req_problem_id req = Some pid" "pid \<noteq> 0"
    by (auto simp: serve_def split: option.splits if_splits)
  obtain s db1 where got: "getOrCreateSession db pid (or_default (req_max_attempts req) 5) (req_session_id req) = (s, db1)"
    by (cases "getOrCreateSession db pid (or_default (req_max_attempts req) 5) (req_session_id req)") auto
  show ?thesis
  proof (cases "status s = solved \<or> status s = max_attempts_reached")
    case True
    then have "resp = buildResponse db1 s" "db' = db1"
      using assms pid got by (auto simp: serve_def Let_def)
    then show ?thesis using buildResponse_latest [of db1 s] by simp
  next
    case False
    then have "runReinforcementLoop env db1 s (or_default (req_language req) ''python'') = (resp, db')"
      using assms pid got by (auto simp: serve_def Let_def split: prod.splits)
    then show ?thesis using runReinforcementLoop_latest by simp
  qed
qed

lemma serve_terminal:
  assumes "serve env db req = (Inr resp, db')"
    and "req_session_id req = Some sid" "find_session db sid = Some s" "status s \<noteq> in_progress"
  shows "db' = db \<and> resp = buildResponse db s"
proof -
  from assms(1) obtain pid where pid: "req_problem_id req = Some pid" "pid \<noteq> 0"
    by (auto simp: serve_def split: option.splits if_splits)
  have got: "getOrCreateSession db pid (or_default (req_max_attempts req) 5) (req_session_id req) = (s, db)"
    using assms(2,3) by (simp add: getOrCreateSession_def)
  have "status s = solved \<or> status s = max_attempts_reached"
    using assms(4) by (cases "status s") auto
  then show ?thesis
    using assms(1) pid got by (auto simp: serve_def Let_def)
qed

text \<open>
  Claim C2, as the code has it. Whenever the request handler answers with a report, the
  report's \<open>latest_solution\<close> is the code, reasoning, score and failing tests of the
  session's stored attempt with the highest attempt number (the empty fallback when the
  session has none), whether or not that attempt is the best-scoring one. When the
  request names a stored session that is already in a terminal state, the store is left
  as it was, so no Attempt record is created, and the report is built from the stored
  session.
\<close>

theorem serve_latest_solution:
  assumes "serve env db req = (Inr resp, db')"
  shows "(if filter (\<lambda>a. session_id a = r_session_id resp) (solution_attempts db') = []
          then r_latest_solution resp = no_solution
          else \<exists>a\<in>set (solution_attempts db').
                 session_id a = r_session_id resp
                 \<and> (\<forall>b\<in>set (solution_attempts db').
                       session_id b = r_session_id resp \<longrightarrow> attempt_number b \<le> attempt_number a)
                 \<and> r_latest_solution resp = solution_view a)
       \<and> (\<forall>sid s. req_session_id req = Some sid \<and> find_session db sid = Some s \<and> status s \<noteq> in_progress
             \<longrightarrow> db' = db \<and> resp = buildResponse db s)"
proof -
  have latest: "r_latest_solution resp
       = (case latest_attempt db' (r_session_id resp) of None \<Rightarrow> no_solution | Some a \<Rightarrow> solution_view a)"
    by (rule serve_latest [OF assms])
  have first: "(if filter (\<lambda>a. session_id a = r_session_id resp) (solution_attempts db') = []
          then r_latest_solution resp = no_solution
          else \<exists>a\<in>set (solution_attempts db').
                 session_id a = r_session_id resp
                 \<and> (\<forall>b\<in>set (solution_attempts db').
                       session_id b = r_session_id resp \<longrightarrow> attempt_number b \<le> attempt_number a)
                 \<and> r_latest_solution resp = solution_view a)"
  proof (cases "latest_attempt db' (r_session_id resp)")
    case None
    then show ?thesis using latest latest_attempt_None [of db' "r_session_id resp"] by simp
  next
    case (Some a)
    then have "filter (\<lambda>a. session_id a = r_session_id resp) (solution_attempts db') \<noteq> []"
      using latest_attempt_None [of db' "r_session_id resp"] by auto
    then show ?thesis
      using latest Some latest_attempt_Some [OF Some] by auto
  qed
  show ?thesis
    using first serve_terminal [OF assms] by blast
qed

text \<open>
  The claim as stated fails when a later attempt scores lower: with scores 60 then 40 the
  report shows the second attempt (40), while the best-scoring attempt is the first.
\<close>

theorem latest_not_best_counterexample:
  "map_option (\<lambda>resp. ls_success_rate (r_latest_solution resp))
      (projr_opt (fst (serve (scripted_services script_60_40) empty_store (new_request 7 2)))) = Some 40
   \<and> map_option (\<lambda>resp. ls_code (r_latest_solution resp))
      (projr_opt (fst (serve (scripted_services script_60_40) empty_store (new_request 7 2))))
      = Some ''class Solution: # worse''
   \<and> map_option solution_view
      (best_scoring_attempt (snd (serve (scripted_services script_60_40) empty_store (new_request 7 2))) 1)
      = Some \<lparr>ls_code = ''class Solution: # better'', ls_reasoning = ''reasoning'',
              ls_success_rate = 60,
              ls_test_results = [failing_test, failing_test]\<rparr>"
  by code_simp

theorem serve_latest_solution_witness:
  "serve (scripted_services script_40_40_100)
     (snd (serve (scripted_services script_40_40_100) empty_store (new_request 7 3)))
     (resume_request 7 3 1)
   = (Inr (buildResponse (snd (serve (scripted_services script_40_40_100) empty_store (new_request 7 3)))
            \<lparr>id' = 1, problem_id = 7, status = solved, best_success_rate = 100,
             total_attempts = 3, max_attempts = 3, completed = True\<rparr>),
      snd (serve (scripted_services script_40_40_100) empty_store (new_request 7 3)))
   \<and> (\<exists>a\<in>set (solution_attempts (snd (serve (scripted_services script_40_40_100) empty_store (new_request 7 3)))).
         attempt_number a = 3
         \<and> r_latest_solution
             (buildResponse (snd (serve (scripted_services script_40_40_100) empty_store (new_request 7 3)))
                \<lparr>id' = 1, problem_id = 7, status = solved, best_success_rate = 100,
                 total_attempts = 3, max_attempts = 3, completed = True\<rparr>)
           = solution_view a)"
proof -
  define db where "db = snd (serve (scripted_services script_40_40_100) empty_store (new_request 7 3))"
  define s where "s = \<lparr>id' = 1, problem_id = 7, status = solved, best_success_rate = 100,
                        total_attempts = 3, max_attempts = 3, completed = True\<rparr>"
  have found: "find_session db 1 = Some s"
    unfolding db_def s_def by code_simp
  have terminal: "status s \<noteq> in_progress"
    by (simp add: s_def)
  have is_solved: "status s = solved"
    by (simp add: s_def)
  have run: "serve (scripted_services script_40_40_100) db (resume_request 7 3 1)
      = (Inr (buildResponse db s), db)"
    using found is_solved
    by (simp add: serve_def resume_request_def getOrCreateSession_def or_default_def Let_def)
  have sid: "r_session_id (buildResponse db s) = 1"
    by (simp add: buildResponse_def Let_def s_def)
  have some: "filter (\<lambda>a. session_id a = 1) (solution_attempts db) \<noteq> []"
    unfolding db_def by code_simp
  have three: "a \<in> set (solution_attempts db) \<Longrightarrow> session_id a = 1 \<Longrightarrow>
      \<forall>b\<in>set (solution_attempts db). session_id b = 1 \<longrightarrow> attempt_number b \<le> attempt_number a \<Longrightarrow>
      attempt_number a = 3" for a
  proof -
    assume a: "a \<in> set (solution_attempts db)" "session_id a = 1"
      and top: "\<forall>b\<in>set (solution_attempts db). session_id b = 1 \<longrightarrow> attempt_number b \<le> attempt_number a"
    have numbers: "map attempt_number (solution_attempts db) = [1, 2, 3]"
      "map session_id (solution_attempts db) = [1, 1, 1]"
      unfolding db_def by code_simp+
    then obtain a1 a2 a3 where rows: "solution_attempts db = [a1, a2, a3]"
      "attempt_number a1 = 1" "attempt_number a2 = 2" "attempt_number a3 = 3"
      "session_id a3 = 1"
      by (cases "solution_attempts db") (auto simp: map_eq_Cons_conv)
    from top rows have "attempt_number a3 \<le> attempt_number a" by simp
    with a rows show "attempt_number a = 3" by auto
  qed
  have "\<exists>a\<in>set (solution_attempts db). attempt_number a = 3
          \<and> r_latest_solution (buildResponse db s) = solution_view a"
    using serve_latest_solution [OF run] some three unfolding sid by (auto split: if_splits)
  then show ?thesis
    using run unfolding db_def s_def by blast
qed

subsection \<open>The evaluator's report\<close>

lemma length_filter_eq: "(length (filter P xs) = length xs) = list_all P xs"
proof (induction xs)
  case Nil
  then show ?case by simp
next
  case (Cons a xs)
  have "length (filter P xs) \<le> length xs" by simp
  then have "length (filter P xs) \<noteq> Suc (length xs)" by linarith
  with Cons show ?case by auto
qed

lemma summarize_rate_100:
  "(success_rate (summarize results) = 100) = (results \<noteq> [] \<and> list_all passed results)"
proof (cases "results = []")
  case True
  then show ?thesis by (simp add: summarize_def)
next
  case False
  then have pos: "0 < length results" by simp
  have "(of_nat (length (filter passed results)) / of_nat (length results) * (100::rat) = 100)
        = (length (filter passed results) = length results)"
    using pos by (simp add: field_simps)
  then show ?thesis
    using False pos by (simp add: summarize_def Let_def length_filter_eq)
qed

text \<open>
  Claim C5. For every report of the evaluator, \<open>success_rate\<close> is
  \<open>passed / total * 100\<close>, and 0 when the list of test cases is empty; it equals 100
  exactly when there is a test case and every Test Record of the report has
  \<open>passed = true\<close>.
\<close>

theorem executeTests_success_rate:
  "(let r = executeTests B submitToJudge0 solutionCode testCases parameterMap language in
      success_rate r = (if testCases = [] then 0
                        else of_nat (passed_tests r) / of_nat (total_tests r) * 100)
      \<and> total_tests r = length testCases
      \<and> passed_tests r = length (filter passed (test_results r))
      \<and> (success_rate r = 100) = (testCases \<noteq> [] \<and> list_all passed (test_results r)))"
proof -
  have "(success_rate (summarize results) = 100) = (results \<noteq> [] \<and> list_all passed (test_results (summarize results)))" for results
    using summarize_rate_100 [of results] by (simp add: summarize_def Let_def)
  then show ?thesis
    by (simp add: executeTests_def Let_def) (simp add: summarize_def Let_def)
qed

subsection \<open>Unsupported parameter counts\<close>

lemma run_test_passed:
  "passed (run_test B submitToJudge0 solutionCode parameterMap language testCase)
     = (\<exists>sub out. submitToJudge0 (createCompleteCode B solutionCode (butlast testCase) parameterMap language)
                     (language_id language) = Inr sub
          \<and> status_id sub = Some 3 \<and> stdout sub = Some out
          \<and> output_matches B (trim out) (expected_of testCase))"
proof (cases "submitToJudge0 (createCompleteCode B solutionCode (butlast testCase) parameterMap language)
                (language_id language)")
  case (Inl message)
  then show ?thesis by (simp add: run_test_def Let_def failed_test_def)
next
  case (Inr sub)
  show ?thesis
  proof (cases "status_id sub = Some 3")
    case False
    then show ?thesis using Inr by (simp add: run_test_def Let_def)
  next
    case True
    show ?thesis
    proof (cases "stdout sub")
      case None
      then show ?thesis using Inr True by (simp add: run_test_def Let_def failed_test_def)
    next
      case (Some out)
      then show ?thesis
        using Inr True
        by (simp add: run_test_def Let_def output_matches_def expected_of_def split: option.splits)
    qed
  qed
qed

text \<open>
  Claim C10, as the code has it. For every parameter map whose entries other than
  \<open>output\<close> number three or more, the generated Python test invocation is the statement
  \<open>print("Error: Unsupported parameter count")\<close> whatever the solution code and the
  inputs are, and the program sent for execution is the solution code followed by that
  statement. A test of such a problem is marked passed exactly when the execution service
  answers that program with status 3 and an output that matches the expected output; so
  it is failed whenever the service reports the printed line as the output, that line
  being no JSON text and not the rendering of the expected value.
\<close>

theorem unsupported_parameter_count:
  assumes "3 \<le> length (filter (\<lambda>param. param \<noteq> ''output'') parameterMap)"
  shows \<open>generatePythonTestCall B inputs parameterMap functionName
           = ''print("Error: Unsupported parameter count")''
       \<and> createCompleteCode B solutionCode inputs parameterMap ''python''
           = unsupported_program solutionCode
       \<and> passed (run_test B submitToJudge0 solutionCode parameterMap ''python'' testCase)
           = (\<exists>sub out. submitToJudge0 (unsupported_program solutionCode) 71 = Inr sub
                \<and> status_id sub = Some 3 \<and> stdout sub = Some out
                \<and> output_matches B (trim out) (expected_of testCase))
       \<and> (\<forall>sub out. submitToJudge0 (unsupported_program solutionCode) 71 = Inr sub
                \<and> stdout sub = Some out
                \<and> trim out = ''Error: Unsupported parameter count''
                \<and> JSON_parse B ''Error: Unsupported parameter count'' = None
                \<and> JSON_stringify B (expected_of testCase) \<noteq> Some ''Error: Unsupported parameter count''
              \<longrightarrow> \<not> passed (run_test B submitToJudge0 solutionCode parameterMap ''python'' testCase))\<close>
proof -
  have call: \<open>generatePythonTestCall B ins parameterMap name
           = ''print("Error: Unsupported parameter count")''\<close> for ins name
    using assms by (simp add: generatePythonTestCall_def Let_def)
  have program: "createCompleteCode B solutionCode ins parameterMap ''python''
           = unsupported_program solutionCode" for ins
    by (simp add: createCompleteCode_def Let_def call unsupported_program_def)
  have id: "language_id ''python'' = 71"
    by (simp add: language_id_def LANGUAGE_IDS_def)
  have passed_iff: "passed (run_test B submitToJudge0 solutionCode parameterMap ''python'' testCase)
           = (\<exists>sub out. submitToJudge0 (unsupported_program solutionCode) 71 = Inr sub
                \<and> status_id sub = Some 3 \<and> stdout sub = Some out
                \<and> output_matches B (trim out) (expected_of testCase))"
    using run_test_passed [of B submitToJudge0 solutionCode parameterMap "''python''" testCase]
    by (simp add: program id)
  show ?thesis
    unfolding passed_iff by (auto simp: call program output_matches_def)
qed

text \<open>
  The claim as stated fails for a solution that prints the expected output and leaves the
  interpreter before the test invocation is reached: the invocation is still the error
  statement, and the test is marked passed with a score of 100.
\<close>

theorem exit_early_counterexample:
  "generatePythonTestCall decimal_builtins [JNum 5, JNum 6, JNum 7] [''a'', ''b'', ''c'', ''output''] ''solve''
     = ''print(\"Error: Unsupported parameter count\")''
   \<and> success_rate (executeTests decimal_builtins exit_early_judge exit_early_solution
        [[JNum 5, JNum 6, JNum 7, JNum 1]] [''a'', ''b'', ''c'', ''output''] ''python'') = 100
   \<and> list_all passed (test_results (executeTests decimal_builtins exit_early_judge exit_early_solution
        [[JNum 5, JNum 6, JNum 7, JNum 1]] [''a'', ''b'', ''c'', ''output''] ''python''))"
  by code_simp

theorem unsupported_parameter_count_witness:
  \<open>3 \<le> length (filter (\<lambda>param. param \<noteq> ''output'') [''a'', ''b'', ''c'', ''output''])
   \<and> createCompleteCode decimal_builtins quiet_solution [JNum 5, JNum 6, JNum 7]
        [''a'', ''b'', ''c'', ''output''] ''python'' = unsupported_program quiet_solution
   \<and> \<not> passed (run_test decimal_builtins quiet_judge quiet_solution [''a'', ''b'', ''c'', ''output'']
        ''python'' [JNum 5, JNum 6, JNum 7, JNum 1])\<close>
proof -
  have three: "3 \<le> length (filter (\<lambda>param. param \<noteq> ''output'') [''a'', ''b'', ''c'', ''output''])"
    by simp
  have answer: "quiet_judge (unsupported_program quiet_solution) 71
      = Inr \<lparr>status_id = Some 3, status_description = Some ''Accepted'',
             stdout = Some ''Error: Unsupported parameter count\<newline>'', stderr = None,
             time = None, memory = None\<rparr>"
    by (simp add: quiet_judge_def)
  have line: "trim ''Error: Unsupported parameter count\<newline>'' = ''Error: Unsupported parameter count''"
    by code_simp
  have no_json: "JSON_parse decimal_builtins ''Error: Unsupported parameter count'' = None"
    by code_simp
  have other: "JSON_stringify decimal_builtins (expected_of [JNum 5, JNum 6, JNum 7, JNum 1])
      \<noteq> Some ''Error: Unsupported parameter count''"
    by code_simp
  show ?thesis
    using unsupported_parameter_count [OF three, of decimal_builtins "[JNum 5, JNum 6, JNum 7]" "''solve''"
        quiet_solution quiet_judge "[JNum 5, JNum 6, JNum 7, JNum 1]"]
      answer line no_json other
    by auto
qed

subsection \<open>Splitting a test case into fields\<close>

lemma top_level_split_nonempty: "top_level_split d q qc s \<noteq> []"
  by (induction s arbitrary: d q qc) (auto split: list.splits)

lemma join_top_level_split: "js_join '','' (top_level_split d q qc s) = s"
proof (induction s arbitrary: d q qc)
  case Nil
  then show ?case by simp
next
  case (Cons c cs)
  show ?case
  proof (cases "\<not> q \<and> c = CHR '','' \<and> d = 0")
    case True
    obtain l ls where "top_level_split d q qc cs = l # ls"
      using top_level_split_nonempty [of d q qc cs] by (cases "top_level_split d q qc cs") auto
    then show ?thesis using True Cons.IH [of d q qc] by auto
  next
    case False
    let ?d = "if \<not> q \<and> c = CHR ''['' then d + 1 else if \<not> q \<and> c = CHR '']'' then d - 1 else d"
    let ?q = "if \<not> q \<and> (c = CHR 0x22 \<or> c = CHR 0x27) then True else if q \<and> [c] = qc then False else q"
    let ?qc = "if \<not> q \<and> (c = CHR 0x22 \<or> c = CHR 0x27) then [c] else qc"
    obtain l ls where split: "top_level_split ?d ?q ?qc cs = l # ls"
      using top_level_split_nonempty [of ?d ?q ?qc cs] by (cases "top_level_split ?d ?q ?qc cs") auto
    have "js_join '','' (l # ls) = cs"
      using Cons.IH [of ?d ?q ?qc] split by simp
    then have "js_join '','' ((c # l) # ls) = c # cs"
      by (cases ls) auto
    moreover have "top_level_split d q qc (c # cs) = (c # l) # ls"
      using False split by auto
    ultimately show ?thesis by simp
  qed
qed

lemma scan_raw:
  "parts (foldl (smartSplit_step (\<lambda>x. x)) st s) @ [current (foldl (smartSplit_step (\<lambda>x. x)) st s)]
     = (case top_level_split (depth st) (inQuotes st) (quoteChar st) s of
          l # ls \<Rightarrow> parts st @ (current st @ l) # ls
        | [] \<Rightarrow> [])"
proof (induction s arbitrary: st)
  case Nil
  then show ?case by simp
next
  case (Cons c cs)
  show ?case
  proof (cases "\<not> inQuotes st \<and> c = CHR '','' \<and> depth st = 0")
    case True
    define st' where "st' = st\<lparr>parts := parts st @ [current st], current := []\<rparr>"
    have step: "smartSplit_step (\<lambda>x. x) st c = st'"
      using True by (simp add: smartSplit_step_def st'_def)
    have spec: "top_level_split (depth st) (inQuotes st) (quoteChar st) (c # cs)
        = [] # top_level_split (depth st') (inQuotes st') (quoteChar st') cs"
      using True by (simp add: st'_def)
    obtain l ls where split: "top_level_split (depth st') (inQuotes st') (quoteChar st') cs = l # ls"
      using top_level_split_nonempty [of "depth st'" "inQuotes st'" "quoteChar st'" cs]
      by (cases "top_level_split (depth st') (inQuotes st') (quoteChar st') cs") auto
    have fold: "foldl (smartSplit_step (\<lambda>x. x)) st (c # cs) = foldl (smartSplit_step (\<lambda>x. x)) st' cs"
      by (simp add: step)
    have "parts (foldl (smartSplit_step (\<lambda>x. x)) st' cs) @ [current (foldl (smartSplit_step (\<lambda>x. x)) st' cs)]
        = parts st' @ (current st' @ l) # ls"
      using Cons.IH [of st'] split by simp
    then show ?thesis
      unfolding fold spec split by (simp add: st'_def)
  next
    case False
    define d' where "d' = (if \<not> inQuotes st \<and> c = CHR ''['' then depth st + 1
              else if \<not> inQuotes st \<and> c = CHR '']'' then depth st - 1 else depth st)"
    define q' where "q' = (if \<not> inQuotes st \<and> (c = CHR 0x22 \<or> c = CHR 0x27) then True
              else if inQuotes st \<and> [c] = quoteChar st then False else inQuotes st)"
    define qc' where "qc' = (if \<not> inQuotes st \<and> (c = CHR 0x22 \<or> c = CHR 0x27) then [c] else quoteChar st)"
    define st' where "st' = st\<lparr>depth := d', inQuotes := q', quoteChar := qc', current := current st @ [c]\<rparr>"
    have step: "smartSplit_step (\<lambda>x. x) st c = st'"
      using False unfolding st'_def d'_def q'_def qc'_def smartSplit_step_def by auto
    have spec: "top_level_split (depth st) (inQuotes st) (quoteChar st) (c # cs)
        = (case top_level_split d' q' qc' cs of l # ls \<Rightarrow> (c # l) # ls | [] \<Rightarrow> [[c]])"
      using False unfolding d'_def q'_def qc'_def by auto
    obtain l ls where split: "top_level_split d' q' qc' cs = l # ls"
      using top_level_split_nonempty [of d' q' qc' cs]
      by (cases "top_level_split d' q' qc' cs") auto
    have fold: "foldl (smartSplit_step (\<lambda>x. x)) st (c # cs) = foldl (smartSplit_step (\<lambda>x. x)) st' cs"
      by (simp add: step)
    have "parts (foldl (smartSplit_step (\<lambda>x. x)) st' cs) @ [current (foldl (smartSplit_step (\<lambda>x. x)) st' cs)]
        = parts st' @ (current st' @ l) # ls"
      using Cons.IH [of st'] split by (simp add: st'_def)
    then show ?thesis
      unfolding fold spec split by (simp add: st'_def)
  qed
qed

lemma scan_push:
  assumes "current st = current st0" "depth st = depth st0" "inQuotes st = inQuotes st0"
    "quoteChar st = quoteChar st0" "parts st = map push (parts st0)"
  shows "current (foldl (smartSplit_step push) st s) = current (foldl (smartSplit_step (\<lambda>x. x)) st0 s)
       \<and> parts (foldl (smartSplit_step push) st s) = map push (parts (foldl (smartSplit_step (\<lambda>x. x)) st0 s))"
  using assms
proof (induction s arbitrary: st st0)
  case Nil
  then show ?case by simp
next
  case (Cons c cs)
  have "current (smartSplit_step push st c) = current (smartSplit_step (\<lambda>x. x) st0 c)"
    "depth (smartSplit_step push st c) = depth (smartSplit_step (\<lambda>x. x) st0 c)"
    "inQuotes (smartSplit_step push st c) = inQuotes (smartSplit_step (\<lambda>x. x) st0 c)"
    "quoteChar (smartSplit_step push st c) = quoteChar (smartSplit_step (\<lambda>x. x) st0 c)"
    "parts (smartSplit_step push st c) = map push (parts (smartSplit_step (\<lambda>x. x) st0 c))"
    using Cons.prems by (simp_all add: smartSplit_step_def)
  from Cons.IH [OF this] show ?case by simp
qed

lemma smartSplit_scan_fields:
  "parts (smartSplit_scan push str) = map push (butlast (top_level_fields str))
   \<and> current (smartSplit_scan push str) = last (top_level_fields str)"
proof -
  obtain l ls where split: "top_level_split 0 False [] str = l # ls"
    using top_level_split_nonempty [of 0 False "[]" str] by (cases "top_level_split 0 False [] str") auto
  have raw: "parts (foldl (smartSplit_step (\<lambda>x. x)) split_init str)
             @ [current (foldl (smartSplit_step (\<lambda>x. x)) split_init str)] = l # ls"
    using scan_raw [of split_init str] split by (simp add: split_init_def)
  then have "butlast (l # ls) = parts (foldl (smartSplit_step (\<lambda>x. x)) split_init str)"
    "last (l # ls) = current (foldl (smartSplit_step (\<lambda>x. x)) split_init str)"
    by (metis butlast_snoc, metis last_snoc)
  moreover have "current (foldl (smartSplit_step push) split_init str)
      = current (foldl (smartSplit_step (\<lambda>x. x)) split_init str)
    \<and> parts (foldl (smartSplit_step push) split_init str)
      = map push (parts (foldl (smartSplit_step (\<lambda>x. x)) split_init str))"
    by (rule scan_push) (simp_all add: split_init_def)
  ultimately show ?thesis
    by (simp add: smartSplit_scan_def top_level_fields_def split)
qed

lemma smartSplit_top_level:
  "smartSplit B str
       = map (\<lambda>field. parseValue B (trim field)) (butlast (top_level_fields str))
         @ (if trim (last (top_level_fields str)) = [] then []
            else [parseValue B (trim (last (top_level_fields str)))])"
  using smartSplit_scan_fields [of "\<lambda>current. parseValue B (trim current)" str]
  by (simp add: smartSplit_def Let_def top_level_fields_def)

text \<open>
  For every input the texts between the cuts of the loop, joined by commas, are the
  input.
\<close>

lemma scan_texts_join:
  "js_join '','' (parts (smartSplit_scan (\<lambda>text. text) str) @ [current (smartSplit_scan (\<lambda>text. text) str)]) = str"
proof -
  have "top_level_fields str \<noteq> []"
    unfolding top_level_fields_def by (rule top_level_split_nonempty)
  then have "butlast (top_level_fields str) @ [last (top_level_fields str)] = top_level_fields str"
    by simp
  then show ?thesis
    using smartSplit_scan_fields [of "\<lambda>text. text" str] join_top_level_split [of 0 False "[]" str]
    by (simp add: top_level_fields_def)
qed

subsection \<open>Well-formed fields are not cut\<close>

lemma onto_Nil: "xs \<noteq> [] \<Longrightarrow> onto [] xs = xs"
  by (simp add: onto_def)

lemma onto_append: "onto (p @ r) xs = onto p (onto r xs)"
  by (simp add: onto_def)

lemma onto_Cons: "onto (c # p) xs = onto [c] (onto p xs)"
  by (simp add: onto_def)

lemma step_no_cut:
  assumes "q \<or> c \<noteq> CHR '','' \<or> d \<noteq> 0"
  shows "top_level_split d q qc (c # cs)
     = onto [c] (top_level_split
                  (if \<not> q \<and> c = CHR ''['' then d + 1 else if \<not> q \<and> c = CHR '']'' then d - 1 else d)
                  (if \<not> q \<and> (c = CHR 0x22 \<or> c = CHR 0x27) then True
                   else if q \<and> [c] = qc then False else q)
                  (if \<not> q \<and> (c = CHR 0x22 \<or> c = CHR 0x27) then [c] else qc)
                  cs)"
proof -
  define rest where "rest = top_level_split
                  (if \<not> q \<and> c = CHR ''['' then d + 1 else if \<not> q \<and> c = CHR '']'' then d - 1 else d)
                  (if \<not> q \<and> (c = CHR 0x22 \<or> c = CHR 0x27) then True
                   else if q \<and> [c] = qc then False else q)
                  (if \<not> q \<and> (c = CHR 0x22 \<or> c = CHR 0x27) then [c] else qc)
                  cs"
  have "rest \<noteq> []" unfolding rest_def by (rule top_level_split_nonempty)
  then obtain l ls where rest: "rest = l # ls" by (cases rest) auto
  have "top_level_split d q qc (c # cs) = (case rest of l # ls \<Rightarrow> (c # l) # ls | [] \<Rightarrow> [[c]])"
    using assms unfolding rest_def by (simp only: top_level_split.simps) auto
  then show ?thesis
    unfolding rest_def [symmetric] by (simp add: rest onto_def)
qed

lemma step_plain:
  assumes "c \<noteq> CHR ''[''" "c \<noteq> CHR '']''" "c \<noteq> CHR 0x22" "c \<noteq> CHR 0x27" "c \<noteq> CHR '','' \<or> d \<noteq> 0"
  shows "top_level_split d False qc (c # cs) = onto [c] (top_level_split d False qc cs)"
  using step_no_cut [of False c d qc cs] assms by auto

lemma step_open_quote:
  assumes "c = CHR 0x22 \<or> c = CHR 0x27"
  shows "top_level_split d False qc (c # cs) = onto [c] (top_level_split d True [c] cs)"
  using step_no_cut [of False c d qc cs] assms by auto

lemma step_in_quote:
  assumes "c \<noteq> q"
  shows "top_level_split d True [q] (c # cs) = onto [c] (top_level_split d True [q] cs)"
  using step_no_cut [of True c d "[q]" cs] assms by auto

lemma step_close_quote:
  "top_level_split d True [q] (q # cs) = onto [q] (top_level_split d False [q] cs)"
  using step_no_cut [of True q d "[q]" cs] by auto

lemma step_open_bracket:
  "top_level_split d False qc (CHR ''['' # cs) = onto ''['' (top_level_split (d + 1) False qc cs)"
  using step_no_cut [of False "CHR ''[''" d qc cs] by auto

lemma step_close_bracket:
  "top_level_split d False qc (CHR '']'' # cs) = onto '']'' (top_level_split (d - 1) False qc cs)"
  using step_no_cut [of False "CHR '']''" d qc cs] by auto

lemma step_comma:
  "top_level_split 0 False qc (CHR '','' # cs) = [] # top_level_split 0 False qc cs"
  by simp

declare top_level_split.simps(2) [simp del]

text \<open>Outside quotes the last quote character seen plays no part.\<close>

lemma quote_char_forgotten:
  "top_level_split d False qc s = top_level_split d False qc' s"
proof (induction s arbitrary: d)
  case Nil
  then show ?case by simp
next
  case (Cons c cs)
  show ?case
  proof (cases "c = CHR 0x22 \<or> c = CHR 0x27")
    case True
    then show ?thesis by (simp only: step_open_quote)
  next
    case no_quote: False
    show ?thesis
    proof (cases "c = CHR '','' \<and> d = 0")
      case True
      then show ?thesis using Cons.IH [of 0] by (simp only: step_comma)
    next
      case False
      show ?thesis
      proof (cases "c = CHR ''[''")
        case True
        then show ?thesis using Cons.IH [of "d + 1"] by (simp only: step_open_bracket)
      next
        case no_open: False
        show ?thesis
        proof (cases "c = CHR '']''")
          case True
          then show ?thesis using Cons.IH [of "d - 1"] by (simp only: step_close_bracket)
        next
          case no_close: False
          have "top_level_split d False qc (c # cs) = onto [c] (top_level_split d False qc cs)"
            "top_level_split d False qc' (c # cs) = onto [c] (top_level_split d False qc' cs)"
            using no_quote False no_open no_close by (auto intro!: step_plain)
          then show ?thesis using Cons.IH [of d] by simp
        qed
      qed
    qed
  qed
qed

lemma quoted_not_cut:
  assumes "q \<notin> set body"
  shows "top_level_split d True [q] (body @ q # rest) = onto (body @ [q]) (top_level_split d False [q] rest)"
  using assms
proof (induction body)
  case Nil
  then show ?case by (simp add: step_close_quote)
next
  case (Cons c body)
  then have "c \<noteq> q" "q \<notin> set body" by auto
  then have "top_level_split d True [q] ((c # body) @ q # rest)
      = onto [c] (onto (body @ [q]) (top_level_split d False [q] rest))"
    using Cons.IH by (simp add: step_in_quote)
  then show ?case
    using onto_Cons [of c "body @ [q]"] by simp
qed

lemma quoted_string_not_cut:
  assumes "q = CHR 0x22 \<or> q = CHR 0x27" "q \<notin> set body"
  shows "top_level_split d False qc (q # body @ q # rest)
         = onto (q # body @ [q]) (top_level_split d False qc rest)"
proof -
  have "top_level_split d False qc (q # body @ q # rest)
      = onto [q] (onto (body @ [q]) (top_level_split d False [q] rest))"
    using assms by (simp add: step_open_quote quoted_not_cut)
  also have "\<dots> = onto (q # body @ [q]) (top_level_split d False [q] rest)"
    using onto_Cons [of q "body @ [q]"] by simp
  finally show ?thesis
    using quote_char_forgotten [of d "[q]" rest qc] by simp
qed

lemma nested_not_cut:
  assumes "nested_text a" "0 < d"
  shows "top_level_split d False qc (a @ rest) = onto a (top_level_split d False qc rest)"
  using assms
proof (induction a arbitrary: d rest rule: nested_text.induct)
  case nested_end
  then show ?case by (simp add: onto_Nil top_level_split_nonempty)
next
  case (nested_plain c s)
  then have "top_level_split d False qc ((c # s) @ rest)
      = onto [c] (onto s (top_level_split d False qc rest))"
    by (simp add: step_plain)
  then show ?case using onto_Cons [of c s] by simp
next
  case (nested_quoted q body s)
  have "top_level_split d False qc ((q # body @ q # s) @ rest)
      = onto (q # body @ [q]) (top_level_split d False qc (s @ rest))"
    using quoted_string_not_cut [OF nested_quoted(1,2), of d qc "s @ rest"] by simp
  also have "\<dots> = onto (q # body @ [q]) (onto s (top_level_split d False qc rest))"
    using nested_quoted.IH [OF nested_quoted.prems] by simp
  finally show ?case
    using onto_append [of "q # body @ [q]" s] by simp
next
  case (nested_bracketed a s)
  have "top_level_split d False qc ((CHR ''['' # a @ CHR '']'' # s) @ rest)
      = onto ''['' (top_level_split (d + 1) False qc (a @ CHR '']'' # s @ rest))"
    by (simp add: step_open_bracket)
  also have "\<dots> = onto ''['' (onto a (top_level_split (d + 1) False qc (CHR '']'' # s @ rest)))"
    using nested_bracketed.IH(1) [of "d + 1" "CHR '']'' # s @ rest"] nested_bracketed.prems by simp
  also have "\<dots> = onto ''['' (onto a (onto '']'' (top_level_split d False qc (s @ rest))))"
    by (simp add: step_close_bracket)
  also have "\<dots> = onto ''['' (onto a (onto '']'' (onto s (top_level_split d False qc rest))))"
    using nested_bracketed.IH(2) [OF nested_bracketed.prems] by simp
  finally show ?case
    by (simp add: onto_def)
qed

lemma field_not_cut:
  assumes "field_text f"
  shows "top_level_split 0 False qc (f @ rest) = onto f (top_level_split 0 False qc rest)"
  using assms
proof (induction f arbitrary: rest rule: field_text.induct)
  case field_end
  then show ?case by (simp add: onto_Nil top_level_split_nonempty)
next
  case (field_plain c s)
  then have "top_level_split 0 False qc ((c # s) @ rest)
      = onto [c] (onto s (top_level_split 0 False qc rest))"
    by (simp add: step_plain)
  then show ?case using onto_Cons [of c s] by simp
next
  case (field_quoted q body s)
  have "top_level_split 0 False qc ((q # body @ q # s) @ rest)
      = onto (q # body @ [q]) (top_level_split 0 False qc (s @ rest))"
    using quoted_string_not_cut [OF field_quoted(1,2), of 0 qc "s @ rest"] by simp
  also have "\<dots> = onto (q # body @ [q]) (onto s (top_level_split 0 False qc rest))"
    using field_quoted.IH by simp
  finally show ?case
    using onto_append [of "q # body @ [q]" s] by simp
next
  case (field_bracketed a s)
  have "top_level_split 0 False qc ((CHR ''['' # a @ CHR '']'' # s) @ rest)
      = onto ''['' (top_level_split 1 False qc (a @ CHR '']'' # s @ rest))"
    using step_open_bracket [of 0] by simp
  also have "\<dots> = onto ''['' (onto a (top_level_split 1 False qc (CHR '']'' # s @ rest)))"
    using nested_not_cut [OF field_bracketed(1), of 1 qc "CHR '']'' # s @ rest"] by simp
  also have "\<dots> = onto ''['' (onto a (onto '']'' (top_level_split 0 False qc (s @ rest))))"
    using step_close_bracket [of 1] by simp
  also have "\<dots> = onto ''['' (onto a (onto '']'' (onto s (top_level_split 0 False qc rest))))"
    using field_bracketed.IH by simp
  finally show ?case
    by (simp add: onto_def)
qed

lemma fields_split:
  assumes "texts \<noteq> []" "\<forall>f\<in>set texts. field_text f"
  shows "top_level_split 0 False qc (js_join '','' texts) = texts"
  using assms
proof (induction texts)
  case Nil
  then show ?case by simp
next
  case (Cons f fs)
  show ?case
  proof (cases fs)
    case Nil
    have "top_level_split 0 False qc (f @ []) = onto f (top_level_split 0 False qc [])"
      using Cons.prems by (intro field_not_cut) simp
    then show ?thesis using Nil by (simp add: onto_def)
  next
    case (Cons g gs)
    have "top_level_split 0 False qc (f @ CHR '','' # js_join '','' fs)
        = onto f (top_level_split 0 False qc (CHR '','' # js_join '','' fs))"
      using Cons.prems by (intro field_not_cut) simp
    also have "\<dots> = onto f ([] # top_level_split 0 False qc (js_join '','' fs))"
      by (simp only: step_comma)
    also have "\<dots> = f # fs"
      using Cons.IH Cons.prems Cons by (simp add: onto_def)
    finally show ?thesis using Cons by simp
  qed
qed

text \<open>
  Every well-formed text is such a list of field texts joined by commas: the hypothesis
  of the next theorem covers all of them.
\<close>

lemma js_join_onto: "js_join sep ((p @ f) # fs) = p @ js_join sep (f # fs)"
  by (cases fs) simp_all

lemma nested_text_fields:
  assumes "nested_text s"
  shows "\<exists>f fs. field_text f \<and> (\<forall>g\<in>set fs. field_text g) \<and> js_join '','' (f # fs) = s"
  using assms
proof (induction s rule: nested_text.induct)
  case nested_end
  have "field_text [] \<and> (\<forall>g\<in>set []. field_text g) \<and> js_join '','' ([] # []) = []"
    by (simp add: field_end)
  then show ?case by blast
next
  case (nested_plain c s)
  then obtain f fs where f: "field_text f" "\<forall>g\<in>set fs. field_text g" "js_join '','' (f # fs) = s"
    by blast
  show ?case
  proof (cases "c = CHR '',''")
    case True
    have "field_text [] \<and> (\<forall>g\<in>set (f # fs). field_text g) \<and> js_join '','' ([] # f # fs) = c # s"
      using f True by (simp add: field_end)
    then show ?thesis by blast
  next
    case False
    have "field_text (c # f)" using nested_plain False f(1) by (intro field_plain)
    moreover have "js_join '','' ((c # f) # fs) = c # s"
      using js_join_onto [of "'',''" "[c]" f fs] f(3) by simp
    ultimately show ?thesis using f(2) by blast
  qed
next
  case (nested_quoted q body s)
  then obtain f fs where f: "field_text f" "\<forall>g\<in>set fs. field_text g" "js_join '','' (f # fs) = s"
    by blast
  have "field_text (q # body @ q # f)" using nested_quoted(1,2) f(1) by (rule field_quoted)
  moreover have "js_join '','' ((q # body @ q # f) # fs) = q # body @ q # s"
    using js_join_onto [of "'',''" "q # body @ [q]" f fs] f(3) by simp
  ultimately show ?case using f(2) by blast
next
  case (nested_bracketed a s)
  then obtain f fs where f: "field_text f" "\<forall>g\<in>set fs. field_text g" "js_join '','' (f # fs) = s"
    by blast
  have "field_text (CHR ''['' # a @ CHR '']'' # f)" using nested_bracketed(1) f(1) by (rule field_bracketed)
  moreover have "js_join '','' ((CHR ''['' # a @ CHR '']'' # f) # fs) = CHR ''['' # a @ CHR '']'' # s"
    using js_join_onto [of "'',''" "CHR ''['' # a @ '']''" f fs] f(3) by simp
  ultimately show ?case using f(2) by blast
qed

text \<open>
  Claim C9, as the code has it. For every input that is a list of well-formed field
  texts joined by commas (a field text is made of quoted strings, well-formed bracketed
  sequences and other characters that are neither comma, quote nor bracket), the splitter
  cuts exactly at the joining commas: the texts between its cuts are the given fields,
  so no bracketed sequence and no quoted string is cut. The fields it returns are the
  values of these texts, each trimmed and parsed, and a blank last text yields no field.
\<close>

theorem smartSplit_atomic:
  assumes "texts \<noteq> []" and "\<forall>f\<in>set texts. field_text f"
  shows "parts (smartSplit_scan (\<lambda>text. text) (js_join '','' texts))
           @ [current (smartSplit_scan (\<lambda>text. text) (js_join '','' texts))] = texts
       \<and> smartSplit B (js_join '','' texts)
           = map (\<lambda>f. parseValue B (trim f)) (butlast texts)
             @ (if trim (last texts) = [] then [] else [parseValue B (trim (last texts))])"
proof -
  have texts: "top_level_fields (js_join '','' texts) = texts"
    unfolding top_level_fields_def using assms by (rule fields_split)
  have "parts (smartSplit_scan (\<lambda>text. text) (js_join '','' texts)) = butlast texts"
    "current (smartSplit_scan (\<lambda>text. text) (js_join '','' texts)) = last texts"
    using smartSplit_scan_fields [of "\<lambda>text. text" "js_join '','' texts"] by (simp_all add: texts)
  then show ?thesis
    using assms(1) smartSplit_top_level [of B "js_join '','' texts"] by (simp add: texts)
qed

text \<open>
  The claim as stated, for every input string, fails. After a stray closing bracket the
  count is zero inside the next bracketed sequence, which is then cut. A quoted string
  that holds its own quote character behind a backslash ends there for the splitter, and
  is cut at its next comma. And the returned fields are values, trimmed and parsed: those
  of \<open>a, b\<close> are \<open>a\<close> and \<open>b\<close>, which joined by a comma do not give back the input.
\<close>

theorem smartSplit_counterexample:
  "smartSplit decimal_builtins ''],[1,2]'' = [JStr ''],[1'', JStr ''2]'']
   \<and> smartSplit decimal_builtins ([CHR 0x27] @ ''it'' @ [CHR 0x5C, CHR 0x27] @ ''s, ok'' @ [CHR 0x27])
       = [JStr ([CHR 0x27] @ ''it'' @ [CHR 0x5C, CHR 0x27] @ ''s''), JStr (''ok'' @ [CHR 0x27])]
   \<and> smartSplit decimal_builtins ''a, b'' = [JStr ''a'', JStr ''b'']
   \<and> js_join '','' [''a'', ''b''] \<noteq> ''a, b''"
  by code_simp

theorem smartSplit_atomic_witness:
  \<open>field_text ''[[1, 2], "x,y"]'' \<and> field_text '' "a,b"'' \<and> field_text '' 9''
   \<and> js_join '','' [''[[1, 2], "x,y"]'', '' "a,b"'', '' 9''] = ''[[1, 2], "x,y"], "a,b", 9''
   \<and> smartSplit decimal_builtins ''[[1, 2], "x,y"], "a,b", 9''
       = [JArr [JArr [JNum 1, JNum 2], JStr ''x,y''], JStr ''a,b'', JNum 9]\<close>
proof -
  have xy: \<open>nested_text ''"x,y"''\<close>
    using nested_quoted [OF _ _ nested_end, of "CHR 0x22" "''x,y''"] by simp
  have "nested_text ''1, 2''"
    by (intro nested_plain nested_end) simp_all
  moreover have \<open>nested_text '', "x,y"''\<close>
    using nested_plain [OF _ _ _ _ nested_plain [OF _ _ _ _ xy], of "CHR '',''" "CHR '' ''"] by simp
  ultimately have \<open>nested_text ''[1, 2], "x,y"''\<close>
    using nested_bracketed [of "''1, 2''" \<open>'', "x,y"''\<close>] by simp
  then have f1: \<open>field_text ''[[1, 2], "x,y"]''\<close>
    using field_bracketed [OF _ field_end, of \<open>''[1, 2], "x,y"''\<close>] by simp
  have \<open>field_text ''"a,b"''\<close>
    using field_quoted [OF _ _ field_end, of "CHR 0x22" "''a,b''"] by simp
  then have f2: \<open>field_text '' "a,b"''\<close>
    using field_plain [of "CHR '' ''" \<open>''"a,b"''\<close>] by simp
  have f3: "field_text '' 9''"
    by (intro field_plain field_end) simp_all
  have join: \<open>js_join '','' [''[[1, 2], "x,y"]'', '' "a,b"'', '' 9''] = ''[[1, 2], "x,y"], "a,b", 9''\<close>
    by simp
  have vals: \<open>parseValue decimal_builtins (trim ''[[1, 2], "x,y"]'') = JArr [JArr [JNum 1, JNum 2], JStr ''x,y'']\<close>
    \<open>parseValue decimal_builtins (trim '' "a,b"'') = JStr ''a,b''\<close>
    \<open>parseValue decimal_builtins (trim '' 9'') = JNum 9\<close>
    \<open>trim '' 9'' \<noteq> []\<close>
    by code_simp+
  have \<open>smartSplit decimal_builtins (js_join '','' [''[[1, 2], "x,y"]'', '' "a,b"'', '' 9''])
       = [JArr [JArr [JNum 1, JNum 2], JStr ''x,y''], JStr ''a,b'', JNum 9]\<close>
    using smartSplit_atomic [of \<open>[''[[1, 2], "x,y"]'', '' "a,b"'', '' 9'']\<close> decimal_builtins] f1 f2 f3 vals
    by simp
  then show ?thesis
    unfolding join using f1 f2 f3 by simp
qed

subsection \<open>The length checks of the JSON parser\<close>

lemma skip_space_Cons: "skip_space s = c # r \<Longrightarrow> length r < length s"
proof -
  assume "skip_space s = c # r"
  moreover have "length (skip_space s) \<le> length s"
    by (simp add: skip_space_def length_dropWhile_le)
  ultimately show ?thesis by simp
qed

lemma exponent_part_length:
  assumes "exponent_part s = Some (e, r)"
  shows "length r \<le> length s"
proof (cases s)
  case Nil
  then show ?thesis using assms by (simp add: exponent_part_def)
next
  case (Cons c t)
  have "length (dropWhile is_digit (tl t)) \<le> length (tl t)" by (rule length_dropWhile_le)
  then have a: "length (dropWhile is_digit (tl t)) \<le> length t" by simp
  have b: "length (dropWhile is_digit t) \<le> length t" by (rule length_dropWhile_le)
  have "r = dropWhile is_digit (tl t) \<or> r = dropWhile is_digit t \<or> r = s"
    using assms unfolding Cons exponent_part_def Let_def
    by (auto split: if_splits)
  then show ?thesis using a b Cons by auto
qed

lemma json_number_length:
  assumes "json_number s = Some (n, r)"
  shows "length r < length s"
proof -
  define u where "u = (if prefix ''-'' s then tl s else s)"
  define ip where "ip = takeWhile is_digit u"
  define t where "t = dropWhile is_digit u"
  define r1 where "r1 = (if prefix ''.'' t then dropWhile is_digit (tl t) else t)"
  have ip: "ip \<noteq> []" and e: "\<exists>e. exponent_part r1 = Some (e, r)"
    using assms unfolding json_number_def Let_def u_def [symmetric] ip_def [symmetric] t_def [symmetric] r1_def [symmetric]
    by (auto split: if_splits option.splits)
  have "u = ip @ t" by (simp add: ip_def t_def)
  then have "length u = length ip + length t" by (metis length_append)
  then have "length t < length u" using ip by simp
  moreover have "length u \<le> length s" by (simp add: u_def)
  moreover have "length (dropWhile is_digit (tl t)) \<le> length (tl t)" by (rule length_dropWhile_le)
  then have "length (dropWhile is_digit (tl t)) \<le> length t" by simp
  then have "length r1 \<le> length t" by (simp add: r1_def)
  moreover have "length r \<le> length r1" using e exponent_part_length by blast
  ultimately show ?thesis by linarith
qed

lemma json_chars_length: "json_chars s = Some (str, r) \<Longrightarrow> length r < length s"
proof (induction s arbitrary: str r rule: json_chars.induct)
  case 1
  then show ?case by simp
next
  case (2 c)
  then show ?case by (simp split: if_splits)
next
  case (3 c e t)
  show ?case
  proof (cases "c = CHR 0x22")
    case True
    then show ?thesis using 3 by simp
  next
    case quote: False
    show ?thesis
    proof (cases "c = CHR 0x5C")
      case False
      then obtain str' where "\<not> (of_char c :: nat) < 32" "json_chars (e # t) = Some (str', r)"
        using 3(4) quote by (auto split: if_splits)
      then have "length r < length (e # t)" using 3(3) quote False by blast
      then show ?thesis by simp
    next
      case True
      show ?thesis
      proof (cases "e = CHR ''u''")
        case False
        then obtain x str' where "escape_char e = Some x" "json_chars t = Some (str', r)"
          using 3(4) quote True by (auto split: option.splits)
        then have "length r < length t" using 3(2) quote True False by blast
        then show ?thesis by simp
      next
        case u: True
        then obtain a b c' d t' u' str' where t: "t = a # b # c' # d # t'"
          and "code_unit a b c' d = Some u'" "json_chars t' = Some (str', r)"
          using 3(4) quote True by (auto split: list.splits option.splits)
        then have "length r < length t'" using 3(1) quote True u by blast
        then show ?thesis using t by simp
      qed
    qed
  qed
qed

lemma json_elements_length: "json_elements s = Some (vs, r) \<Longrightarrow> length r < length s"
proof (induction s arbitrary: vs r rule: length_induct)
  case (1 s)
  from "1.prems" obtain v r0 c r' where v: "json_value s = Some (v, r0)" and g: "length r0 < length s"
    and c: "skip_space r0 = c # r'"
    and rest: "(c = CHR '','' \<and> (\<exists>vs'. json_elements r' = Some (vs', r))) \<or> (c = CHR '']'' \<and> r = r')"
    by (subst (asm) json_elements.simps) (auto split: option.splits if_splits list.splits)
  have r': "length r' < length r0" using c by (rule skip_space_Cons)
  from rest show ?case
  proof
    assume "c = CHR '','' \<and> (\<exists>vs'. json_elements r' = Some (vs', r))"
    then obtain vs' where "json_elements r' = Some (vs', r)" by blast
    moreover have "length r' < length s" using r' g by simp
    ultimately have "length r < length r'" using "1.IH" by blast
    then show ?thesis using r' g by simp
  next
    assume "c = CHR '']'' \<and> r = r'"
    then show ?thesis using r' g by simp
  qed
qed

lemma json_members_length: "json_members s = Some (ms, r) \<Longrightarrow> length r < length s"
proof (induction s arbitrary: ms r rule: length_induct)
  case (1 s)
  from "1.prems" obtain v r3 c3 r4 where g: "length r3 < length s"
    and c: "skip_space r3 = c3 # r4"
    and rest: "(c3 = CHR '','' \<and> (\<exists>ms'. json_members r4 = Some (ms', r))) \<or> (c3 = CHR ''}'' \<and> r = r4)"
    by (subst (asm) json_members.simps) (auto split: option.splits if_splits list.splits)
  have r4: "length r4 < length r3" using c by (rule skip_space_Cons)
  from rest show ?case
  proof
    assume "c3 = CHR '','' \<and> (\<exists>ms'. json_members r4 = Some (ms', r))"
    then obtain ms' where "json_members r4 = Some (ms', r)" by blast
    moreover have "length r4 < length s" using r4 g by simp
    ultimately have "length r < length r4" using "1.IH" by blast
    then show ?thesis using r4 g by simp
  next
    assume "c3 = CHR ''}'' \<and> r = r4"
    then show ?thesis using r4 g by simp
  qed
qed

lemma json_value_length:
  assumes "json_value s = Some (v, r)"
  shows "length r < length s"
proof -
  obtain c t where ct: "skip_space s = c # t"
    using assms by (subst (asm) json_value.simps) (auto split: list.splits)
  have t: "length t < length s" using ct by (rule skip_space_Cons)
  have v: "(if c = CHR ''['' then
            (if prefix '']'' (skip_space t) then Some (JArr [], tl (skip_space t))
             else map_option (\<lambda>(vs, t). (JArr vs, t)) (json_elements t))
          else if c = CHR ''{'' then
            (if prefix ''}'' (skip_space t) then Some (JObj [], tl (skip_space t))
             else map_option (\<lambda>(ms, t). (JObj (foldl define_property [] ms), t)) (json_members t))
          else if c = CHR 0x22 then map_option (\<lambda>(str, t). (JStr str, t)) (json_chars t)
          else if prefix ''true'' (c # t) then Some (JBool True, drop 3 t)
          else if prefix ''false'' (c # t) then Some (JBool False, drop 4 t)
          else if prefix ''null'' (c # t) then Some (JNull, drop 3 t)
          else map_option (\<lambda>(n, t). (JNum n, t)) (json_number (c # t))) = Some (v, r)"
    using assms by (subst (asm) json_value.simps) (simp add: ct)
  have skip: "length (tl (skip_space t)) \<le> length t"
  proof -
    have "length (skip_space t) \<le> length t" by (simp add: skip_space_def length_dropWhile_le)
    then show ?thesis by simp
  qed
  have "length r \<le> length t"
  proof (cases "c = CHR ''[''")
    case True
    then have "r = tl (skip_space t) \<or> (\<exists>vs. json_elements t = Some (vs, r))"
      using v by (auto split: if_splits)
    then show ?thesis using skip json_elements_length [of t _ r] by fastforce
  next
    case no_open: False
    show ?thesis
    proof (cases "c = CHR ''{''")
      case True
      then have "r = tl (skip_space t) \<or> (\<exists>ms. json_members t = Some (ms, r))"
        using v no_open by (auto split: if_splits)
      then show ?thesis using skip json_members_length [of t _ r] by fastforce
    next
      case no_brace: False
      show ?thesis
      proof (cases "c = CHR 0x22")
        case True
        then have "\<exists>str. json_chars t = Some (str, r)"
          using v no_open no_brace by (auto split: if_splits)
        then show ?thesis using json_chars_length [of t _ r] by fastforce
      next
        case False
        have "r = drop 3 t \<or> r = drop 4 t \<or> (\<exists>n. json_number (c # t) = Some (n, r))"
          using v no_open no_brace False by (auto split: if_splits)
        then show ?thesis using json_number_length [of "c # t" _ r] by fastforce
      qed
    qed
  qed
  then show ?thesis using t by simp
qed

text \<open>The comparisons of lengths in the parser are true whenever they are reached.\<close>

lemma json_elements_unguarded:
  "json_elements s =
     (case json_value s of
        None \<Rightarrow> None
      | Some (v, r) \<Rightarrow>
            (case skip_space r of
               [] \<Rightarrow> None
             | c # r' \<Rightarrow>
                 if c = CHR '','' then map_option (\<lambda>(vs, t). (v # vs, t)) (json_elements r')
                 else if c = CHR '']'' then Some ([v], r')
                 else None))"
  by (subst json_elements.simps) (auto split: option.splits dest: json_value_length)

lemma json_members_unguarded:
  "json_members s =
     (case skip_space s of
        [] \<Rightarrow> None
      | c # r \<Rightarrow>
          if c = CHR 0x22 then
            (case json_chars r of
               None \<Rightarrow> None
             | Some (k, r1) \<Rightarrow>
                 if prefix '':'' (skip_space r1) then
                   (case json_value (tl (skip_space r1)) of
                      None \<Rightarrow> None
                    | Some (v, r3) \<Rightarrow>
                          (case skip_space r3 of
                             [] \<Rightarrow> None
                           | c3 # r4 \<Rightarrow>
                               if c3 = CHR '','' then map_option (\<lambda>(ms, t). ((k, v) # ms, t)) (json_members r4)
                               else if c3 = CHR ''}'' then Some ([(k, v)], r4)
                               else None))
                 else None)
          else None)"
proof (cases "skip_space s")
  case Nil
  then show ?thesis by (subst json_members.simps) simp
next
  case (Cons c r)
  have r: "length r < length s" using Cons by (rule skip_space_Cons)
  show ?thesis
  proof (cases "c = CHR 0x22")
    case False
    then show ?thesis using Cons by (subst json_members.simps) simp
  next
    case True
    show ?thesis
    proof (cases "json_chars r")
      case None
      then show ?thesis using Cons True by (subst json_members.simps) simp
    next
      case (Some kr)
      obtain k r1 where kr: "kr = (k, r1)" by (cases kr)
      have r1: "length r1 < length r" using Some kr json_chars_length by blast
      have "length (skip_space r1) \<le> length r1" by (simp add: skip_space_def length_dropWhile_le)
      then have g1: "length (tl (skip_space r1)) < length s" using r1 r by simp
      have g2: "length r3 < length s" if "json_value (tl (skip_space r1)) = Some (v, r3)" for v r3
        using json_value_length [OF that] g1 by simp
      show ?thesis
        using Cons True Some kr g1 g2
        by (subst json_members.simps) (auto split: option.splits)
    qed
  qed
qed

section \<open>Properties of the code extractors\<close>

subsection \<open>Trimming\<close>

lemma trim_Nil [simp]: "trim [] = []"
  by (simp add: trim_def)

lemma trim_Cons_space: "is_space c \<Longrightarrow> trim (c # s) = trim s"
  by (simp add: trim_def)

lemma trim_all_space: "list_all is_space s \<Longrightarrow> trim s = []"
  by (induction s) (auto simp: trim_Cons_space)

lemma trim_snoc_space: "is_space c \<Longrightarrow> trim (s @ [c]) = trim s"
proof -
  assume c: "is_space c"
  show ?thesis
  proof (cases "list_all is_space s")
    case True
    then have "list_all is_space (s @ [c])" using c by simp
    then show ?thesis using True by (simp add: trim_all_space)
  next
    case False
    then obtain x where "x \<in> set s" "\<not> is_space x" by (auto simp: list_all_iff)
    then have "dropWhile is_space (s @ [c]) = dropWhile is_space s @ [c]"
      by (rule dropWhile_append1)
    then show ?thesis using c by (simp add: trim_def)
  qed
qed

lemma trim_ends:
  "trim s = [] \<or> (\<not> is_space (hd (trim s)) \<and> \<not> is_space (last (trim s)))"
proof (cases "trim s = []")
  case True
  then show ?thesis by simp
next
  case False
  define t where "t = dropWhile is_space s"
  define r where "r = dropWhile is_space (rev t)"
  have trim: "trim s = rev r" by (simp add: trim_def t_def r_def)
  have r: "r \<noteq> []" using False trim by simp
  then have hd_r: "\<not> is_space (hd r)" unfolding r_def by (rule hd_dropWhile)
  have "suffix r (rev t)" unfolding r_def by (rule suffix_dropWhile)
  then obtain p where p: "rev t = p @ r" by (auto simp: suffix_def)
  then have t: "t = rev r @ rev p" by (metis rev_append rev_rev_ident)
  have "t \<noteq> []" using t r by simp
  then have "\<not> is_space (hd t)" unfolding t_def by (rule hd_dropWhile)
  moreover have "hd t = hd (rev r)" using t r by simp
  ultimately have "\<not> is_space (hd (trim s))" using trim by simp
  moreover have "\<not> is_space (last (trim s))" using trim hd_r r by (simp add: last_rev)
  ultimately show ?thesis by simp
qed

lemma trim_fixed:
  "s = [] \<or> (\<not> is_space (hd s) \<and> \<not> is_space (last s)) \<Longrightarrow> trim s = s"
proof (cases "s = []")
  case True
  then show ?thesis by simp
next
  case False
  assume "s = [] \<or> (\<not> is_space (hd s) \<and> \<not> is_space (last s))"
  with False have h: "\<not> is_space (hd s)" and l: "\<not> is_space (last s)" by auto
  have "dropWhile is_space s = s" using False h by (cases s) auto
  moreover have "dropWhile is_space (rev s) = rev s"
    using False l by (cases "rev s") (auto simp: last_rev[symmetric] hd_rev)
  ultimately show ?thesis by (simp add: trim_def)
qed

lemma trim_idem [simp]: "trim (trim s) = trim s"
  using trim_ends [of s] by (rule trim_fixed)

lemma sublist_trim: "sublist (trim s) s"
proof -
  have "sublist (rev (dropWhile is_space (rev (dropWhile is_space s)))) (dropWhile is_space s)"
    by (metis sublist_dropWhile sublist_rev_left)
  then show ?thesis
    unfolding trim_def using sublist_dropWhile sublist_order.order.trans by blast
qed

text \<open>A text whose first and last characters are not white space survives trimming.\<close>

lemma sublist_Cons_space:
  assumes "p \<noteq> []" "\<not> is_space (hd p)" "is_space c"
  shows "sublist p (c # s) = sublist p s"
proof -
  have "\<not> prefix p (c # s)"
    using assms by (cases p) auto
  then show ?thesis by (simp add: sublist_Cons_right)
qed

lemma sublist_snoc_space:
  assumes "p \<noteq> []" "\<not> is_space (last p)" "is_space c"
  shows "sublist p (s @ [c]) = sublist p s"
proof -
  have "sublist p (s @ [c]) = sublist (rev p) (c # rev s)"
    by (metis rev.simps(2) rev_rev_ident sublist_rev)
  also have "\<dots> = sublist (rev p) (rev s)"
    using assms by (intro sublist_Cons_space) (auto simp: hd_rev)
  also have "\<dots> = sublist p s" by simp
  finally show ?thesis .
qed

lemma sublist_dropWhile_space:
  assumes "p \<noteq> []" "\<not> is_space (hd p)"
  shows "sublist p (dropWhile is_space s) = sublist p s"
  by (induction s) (auto simp: sublist_Cons_space [OF assms])

lemma sublist_trim_iff:
  assumes "p \<noteq> []" "\<not> is_space (hd p)" "\<not> is_space (last p)"
  shows "sublist p (trim s) = sublist p s"
proof -
  have "sublist p (trim s) = sublist (rev p) (dropWhile is_space (rev (dropWhile is_space s)))"
    unfolding trim_def by (simp add: sublist_rev_right)
  also have "\<dots> = sublist (rev p) (rev (dropWhile is_space s))"
    using assms by (intro sublist_dropWhile_space) (auto simp: hd_rev)
  also have "\<dots> = sublist p (dropWhile is_space s)" by simp
  also have "\<dots> = sublist p s" using assms by (intro sublist_dropWhile_space)
  finally show ?thesis .
qed

subsection \<open>Texts without a fence\<close>

lemma to_upper_backtick: "(to_upper CHR 0x60 = to_upper c) = (c = CHR 0x60)"
proof -
  have "to_upper CHR 0x60 = CHR 0x60" by (simp add: to_upper_def)
  moreover have "(CHR 0x60 = to_upper c) = (c = CHR 0x60)"
  proof (cases "97 \<le> (of_char c :: nat) \<and> (of_char c :: nat) \<le> 122")
    case False
    then show ?thesis by (auto simp: to_upper_def Let_def)
  next
    case True
    then have "to_upper c = char_of ((of_char c :: nat) - 32)" by (simp add: to_upper_def Let_def)
    then have "(of_char (to_upper c) :: nat) = ((of_char c :: nat) - 32) mod 256" by simp
    also have "\<dots> = (of_char c :: nat) - 32"
    proof (rule mod_less)
      show "(of_char c :: nat) - 32 < 256" using True by linarith
    qed
    finally have "(of_char (to_upper c) :: nat) = (of_char c :: nat) - 32" .
    with True have "(of_char (to_upper c) :: nat) \<noteq> 96" by linarith
    then have "to_upper c \<noteq> CHR 0x60" by auto
    moreover have "c \<noteq> CHR 0x60" using True by auto
    ultimately show ?thesis by auto
  qed
  ultimately show ?thesis by simp
qed

lemma ci_strip_fence: "ci_strip (fence @ language) s = Some r \<Longrightarrow> prefix fence s"
proof -
  assume a: "ci_strip (fence @ language) s = Some r"
  obtain c1 s1 where s: "s = c1 # s1" using a by (cases s) (auto simp: fence_def)
  obtain c2 s2 where s1: "s1 = c2 # s2" using a s by (cases s1) (auto simp: fence_def split: if_splits)
  obtain c3 s3 where s2: "s2 = c3 # s3" using a s s1 by (cases s2) (auto simp: fence_def split: if_splits)
  show ?thesis
    using a unfolding s s1 s2 fence_def
    by (auto simp: to_upper_backtick split: if_splits)
qed

lemma no_block_without_fence:
  assumes "\<not> sublist fence src"
  shows "regex_exec (closed_block_at language) src = None"
    and "regex_exec (open_block_at language) src = None"
proof -
  have closed: "closed_block_at language s = None" if "\<not> prefix fence s" for s
    using that ci_strip_fence [of language s] by (auto simp: closed_block_at_def split: option.splits)
  have opened: "open_block_at language s = None" if "\<not> prefix fence s" for s
    using that ci_strip_fence [of language s] by (auto simp: open_block_at_def split: option.splits)
  have "regex_exec (closed_block_at language) s = None \<and> regex_exec (open_block_at language) s = None"
    if "\<not> sublist fence s" for s
    using that
  proof (induction s)
    case Nil
    then show ?case using closed [of "[]"] opened [of "[]"] by (simp add: fence_def)
  next
    case (Cons c cs)
    then have "\<not> prefix fence (c # cs)" "\<not> sublist fence cs"
      by (auto simp: sublist_Cons_right)
    then show ?case using Cons.IH closed opened by simp
  qed
  then show "regex_exec (closed_block_at language) src = None"
    and "regex_exec (open_block_at language) src = None"
    using assms by auto
qed

lemma extractCodeFromMarkdown_no_fence:
  "\<not> sublist fence src \<Longrightarrow> extractCodeFromMarkdown src language = trim src"
  by (simp add: extractCodeFromMarkdown_def no_block_without_fence truthy_def)

lemma extractCleanCode_no_fence:
  "\<not> sublist fence src \<Longrightarrow>
   extractCleanCode src language
     = (case (if language = ''python'' then class_detection src else None) of
          Some extracted \<Rightarrow> extracted
        | None \<Rightarrow> if sublist ''class Solution:'' src then trim src else src)"
  by (simp add: extractCleanCode_def no_block_without_fence truthy_def)

lemma no_fence_trim: "\<not> sublist fence src \<Longrightarrow> \<not> sublist fence (trim src)"
  using sublist_trim sublist_order.order.trans by blast

subsection \<open>Searching by index\<close>

lemma find_index_dropWhile:
  "dropWhile (\<lambda>x. \<not> P x) xs = (case find_index P xs of None \<Rightarrow> [] | Some i \<Rightarrow> drop i xs)"
  by (induction xs) (auto split: option.splits)

lemma find_index_takeWhile:
  "takeWhile (\<lambda>x. \<not> P x) xs = (case find_index P xs of None \<Rightarrow> xs | Some i \<Rightarrow> take i xs)"
  by (induction xs) (auto split: option.splits)

lemma find_index_less: "find_index P xs = Some i \<Longrightarrow> i < length xs"
  by (induction xs arbitrary: i) (auto split: if_splits)

lemma class_detection_detected:
  "class_detection src
     = (case detected src of
          None \<Rightarrow> None
        | Some extracted \<Rightarrow> if sublist ''class Solution:'' extracted then Some extracted else None)"
proof (cases "find_index is_anchor_line (split_char NL src)")
  case None
  then show ?thesis
    by (simp add: class_detection_def detected_def code_lines_def find_index_dropWhile)
next
  case (Some i)
  let ?L = "split_char NL src"
  let ?Q = "\<lambda>l. explanation_line (trim l)"
  have i: "i < length ?L" using Some by (rule find_index_less)
  then have drop: "drop i ?L = ?L ! i # drop (Suc i) ?L"
    by (simp add: Cons_nth_drop_Suc)
  have lines: "code_lines ?L = Some (?L ! i # takeWhile (\<lambda>l. \<not> ?Q l) (drop (Suc i) ?L))"
    using Some drop by (simp add: code_lines_def find_index_dropWhile)
  have slice: "take ((case find_index ?Q (drop (i + 1) ?L) of None \<Rightarrow> length ?L | Some k \<Rightarrow> i + 1 + k) - i)
                 (drop i ?L)
             = ?L ! i # takeWhile (\<lambda>l. \<not> ?Q l) (drop (Suc i) ?L)"
  proof (cases "find_index ?Q (drop (i + 1) ?L)")
    case None
    then show ?thesis using i drop by (simp add: find_index_takeWhile)
  next
    case (Some k)
    then show ?thesis using drop by (simp add: find_index_takeWhile)
  qed
  show ?thesis
    using Some slice lines
    by (simp add: class_detection_def detected_def Let_def)
qed

subsection \<open>Lines\<close>

lemma split_char_nonempty: "split_char sep s \<noteq> []"
  by (induction s) (auto split: list.splits)

lemma split_char_snoc:
  "split_char sep (s @ [c])
     = (if c = sep then split_char sep s @ [[]]
        else butlast (split_char sep s) @ [last (split_char sep s) @ [c]])"
proof (induction s)
  case Nil
  then show ?case by simp
next
  case (Cons d s)
  obtain l ls where l: "split_char sep s = l # ls"
    using split_char_nonempty [of sep s] by (cases "split_char sep s") auto
  show ?case
  proof (cases "c = sep")
    case True
    then show ?thesis using Cons l by (auto split: list.splits)
  next
    case False
    obtain l' ls' where l': "butlast (split_char sep s) @ [last (split_char sep s) @ [c]] = l' # ls'"
      by (cases "butlast (split_char sep s) @ [last (split_char sep s) @ [c]]") auto
    show ?thesis
    proof (cases ls)
      case Nil
      then show ?thesis using Cons False l by auto
    next
      case (Cons m ms)
      then show ?thesis using Cons.IH False l by auto
    qed
  qed
qed

lemma split_char_no_sep: "l \<in> set (split_char sep s) \<Longrightarrow> sep \<notin> set l"
proof (induction s arbitrary: l)
  case Nil
  then show ?case by simp
next
  case (Cons c s)
  obtain m ms where m: "split_char sep s = m # ms"
    using split_char_nonempty [of sep s] by (cases "split_char sep s") auto
  show ?case
  proof (cases "c = sep")
    case True
    then show ?thesis using Cons by auto
  next
    case False
    then have "l = c # m \<or> l \<in> set ms" using Cons.prems m by auto
    then show ?thesis using Cons.IH m False by auto
  qed
qed

lemma split_char_sublist: "l \<in> set (split_char sep s) \<Longrightarrow> sublist l s"
proof (induction s arbitrary: l)
  case Nil
  then show ?case by simp
next
  case (Cons c s)
  obtain m ms where m: "split_char sep s = m # ms"
    using split_char_nonempty [of sep s] by (cases "split_char sep s") auto
  have rest: "sublist l (c # s)" if "l \<in> set (split_char sep s)"
    using Cons.IH [OF that] by (simp add: sublist_Cons_right)
  show ?case
  proof (cases "c = sep")
    case True
    then have "l = [] \<or> l \<in> set (split_char sep s)" using Cons.prems by auto
    then show ?thesis using rest by auto
  next
    case False
    then have "l = c # m \<or> l \<in> set ms" using Cons.prems m by auto
    then show ?thesis
    proof
      assume l: "l = c # m"
      have "prefix m s"
        using m
      proof (induction s arbitrary: m ms)
        case Nil
        then show ?case by simp
      next
        case (Cons d s)
        obtain n ns where n: "split_char sep s = n # ns"
          using split_char_nonempty [of sep s] by (cases "split_char sep s") auto
        show ?case using Cons n by (auto split: if_splits)
      qed
      then show ?thesis using l by (simp add: sublist_Cons_right)
    next
      assume "l \<in> set ms"
      then show ?thesis using rest m by simp
    qed
  qed
qed

lemma js_join_Cons: "js_join sep (x # ys) = (if ys = [] then x else x @ sep @ js_join sep ys)"
  by (cases ys) auto

lemma split_char_line: "sep \<notin> set x \<Longrightarrow> split_char sep x = [x]"
  by (induction x) auto

lemma split_char_append_sep:
  "sep \<notin> set x \<Longrightarrow> split_char sep (x @ sep # r) = x # split_char sep r"
  by (induction x) auto

lemma split_join:
  "ls \<noteq> [] \<Longrightarrow> \<forall>l\<in>set ls. sep \<notin> set l \<Longrightarrow> split_char sep (js_join [sep] ls) = ls"
proof (induction ls)
  case Nil
  then show ?case by simp
next
  case (Cons x ys)
  show ?case
  proof (cases "ys = []")
    case True
    then show ?thesis using Cons.prems by (simp add: split_char_line)
  next
    case False
    then have "split_char sep (js_join [sep] ys) = ys" using Cons by simp
    then show ?thesis
      using False Cons.prems by (simp add: js_join_Cons split_char_append_sep)
  qed
qed

lemma js_join_snoc: "ls \<noteq> [] \<Longrightarrow> js_join sep (ls @ [l]) = js_join sep ls @ sep @ l"
  by (induction ls) (auto simp: js_join_Cons)

lemma sublist_join:
  assumes "sep \<notin> set p" "p \<noteq> []"
  shows "sublist p (js_join [sep] ls) \<Longrightarrow> \<exists>l\<in>set ls. sublist p l"
proof (induction ls)
  case Nil
  then show ?case using assms by simp
next
  case (Cons x ys)
  show ?case
  proof (cases "ys = []")
    case True
    then show ?thesis using Cons.prems by simp
  next
    case False
    then have "sublist p (x @ sep # js_join [sep] ys)"
      using Cons.prems by (simp add: js_join_Cons)
    then consider "sublist p x" | "sublist p (sep # js_join [sep] ys)"
      | p1 p2 where "p = p1 @ p2" "suffix p1 x" "prefix p2 (sep # js_join [sep] ys)"
      by (auto simp: sublist_append)
    then show ?thesis
    proof cases
      case 1
      then show ?thesis by auto
    next
      case 2
      then have "sublist p (js_join [sep] ys)"
        using assms by (cases p) (auto simp: sublist_Cons_right)
      then show ?thesis using Cons.IH by auto
    next
      case 3
      then have "p2 = []" using assms by (cases p2) auto
      then have "sublist p x" using 3 by auto
      then show ?thesis by auto
    qed
  qed
qed

subsection \<open>White space around the lines does not change what is detected\<close>

lemma is_anchor_line_Nil [simp]: "\<not> is_anchor_line []"
  by (simp add: is_anchor_line_def)

lemma is_anchor_line_Cons_space: "is_space c \<Longrightarrow> is_anchor_line (c # l) = is_anchor_line l"
  unfolding is_anchor_line_def
  by (simp add: sublist_Cons_space is_space_def)

lemma is_anchor_line_snoc_space: "is_space c \<Longrightarrow> is_anchor_line (l @ [c]) = is_anchor_line l"
  unfolding is_anchor_line_def
  by (simp add: sublist_snoc_space is_space_def)

lemma not_explanation_blank [simp]: "\<not> explanation_line []"
  by (simp add: explanation_line_def numbered_bold_def)

lemma code_lines_blank_first: "code_lines ([] # ls) = code_lines ls"
  by (simp add: code_lines_def)

lemma code_lines_space_first:
  assumes "is_space c"
  shows "map_option (\<lambda>ls. trim (js_join [NL] ls)) (code_lines ((c # l) # ls))
       = map_option (\<lambda>ls. trim (js_join [NL] ls)) (code_lines (l # ls))"
proof (cases "is_anchor_line l")
  case True
  then have "is_anchor_line (c # l)" using assms by (simp add: is_anchor_line_Cons_space)
  then show ?thesis
    using True assms by (simp add: code_lines_def js_join_Cons trim_Cons_space)
next
  case False
  then have "\<not> is_anchor_line (c # l)" using assms by (simp add: is_anchor_line_Cons_space)
  then show ?thesis using False by (simp add: code_lines_def)
qed

text \<open>
  After the first line of code: a further blank line, or a space more at the end of the
  last line, adds at most that white space to the end of the joined lines.
\<close>

lemma joined_blank_last:
  "\<exists>w. list_all is_space w
     \<and> js_join [NL] (a # takeWhile (\<lambda>l. \<not> explanation_line (trim l)) (ls @ [[]]))
       = js_join [NL] (a # takeWhile (\<lambda>l. \<not> explanation_line (trim l)) ls) @ w"
proof (induction ls arbitrary: a)
  case Nil
  have "js_join [NL] (a # takeWhile (\<lambda>l. \<not> explanation_line (trim l)) ([] @ [[]]))
        = js_join [NL] (a # takeWhile (\<lambda>l. \<not> explanation_line (trim l)) []) @ [NL]"
    by simp
  moreover have "list_all is_space [NL]" by (simp add: is_space_def NL_def)
  ultimately show ?case by blast
next
  case (Cons b ls)
  show ?case
  proof (cases "explanation_line (trim b)")
    case True
    then have "js_join [NL] (a # takeWhile (\<lambda>l. \<not> explanation_line (trim l)) ((b # ls) @ [[]]))
        = js_join [NL] (a # takeWhile (\<lambda>l. \<not> explanation_line (trim l)) (b # ls)) @ []"
      by simp
    moreover have "list_all is_space []" by simp
    ultimately show ?thesis by blast
  next
    case False
    obtain w where w: "list_all is_space w"
      "js_join [NL] (b # takeWhile (\<lambda>l. \<not> explanation_line (trim l)) (ls @ [[]]))
       = js_join [NL] (b # takeWhile (\<lambda>l. \<not> explanation_line (trim l)) ls) @ w"
      using Cons.IH [of b] by blast
    then have "js_join [NL] (a # takeWhile (\<lambda>l. \<not> explanation_line (trim l)) ((b # ls) @ [[]]))
        = js_join [NL] (a # takeWhile (\<lambda>l. \<not> explanation_line (trim l)) (b # ls)) @ w"
      using False by simp
    with w(1) show ?thesis by blast
  qed
qed

lemma joined_space_last:
  assumes "is_space c"
  shows "\<exists>w. list_all is_space w
     \<and> js_join [NL] (a # takeWhile (\<lambda>l. \<not> explanation_line (trim l)) (ls @ [l @ [c]]))
       = js_join [NL] (a # takeWhile (\<lambda>l. \<not> explanation_line (trim l)) (ls @ [l])) @ w"
proof (induction ls arbitrary: a)
  case Nil
  show ?case
  proof (cases "explanation_line (trim l)")
    case True
    then have "js_join [NL] (a # takeWhile (\<lambda>l. \<not> explanation_line (trim l)) ([] @ [l @ [c]]))
        = js_join [NL] (a # takeWhile (\<lambda>l. \<not> explanation_line (trim l)) ([] @ [l])) @ []"
      using assms by (simp add: trim_snoc_space)
    moreover have "list_all is_space []" by simp
    ultimately show ?thesis by blast
  next
    case False
    then have "js_join [NL] (a # takeWhile (\<lambda>l. \<not> explanation_line (trim l)) ([] @ [l @ [c]]))
        = js_join [NL] (a # takeWhile (\<lambda>l. \<not> explanation_line (trim l)) ([] @ [l])) @ [c]"
      using assms by (simp add: trim_snoc_space)
    moreover have "list_all is_space [c]" using assms by simp
    ultimately show ?thesis by blast
  qed
next
  case (Cons b ls)
  show ?case
  proof (cases "explanation_line (trim b)")
    case True
    then have "js_join [NL] (a # takeWhile (\<lambda>l. \<not> explanation_line (trim l)) ((b # ls) @ [l @ [c]]))
        = js_join [NL] (a # takeWhile (\<lambda>l. \<not> explanation_line (trim l)) ((b # ls) @ [l])) @ []"
      by simp
    moreover have "list_all is_space []" by simp
    ultimately show ?thesis by blast
  next
    case False
    obtain w where w: "list_all is_space w"
      "js_join [NL] (b # takeWhile (\<lambda>l. \<not> explanation_line (trim l)) (ls @ [l @ [c]]))
       = js_join [NL] (b # takeWhile (\<lambda>l. \<not> explanation_line (trim l)) (ls @ [l])) @ w"
      using Cons.IH [of b] by blast
    then have "js_join [NL] (a # takeWhile (\<lambda>l. \<not> explanation_line (trim l)) ((b # ls) @ [l @ [c]]))
        = js_join [NL] (a # takeWhile (\<lambda>l. \<not> explanation_line (trim l)) ((b # ls) @ [l])) @ w"
      using False by simp
    with w(1) show ?thesis by blast
  qed
qed

lemma trim_append_spaces: "list_all is_space w \<Longrightarrow> trim (s @ w) = trim s"
proof (induction w rule: rev_induct)
  case Nil
  then show ?case by simp
next
  case (snoc c w)
  then have "trim ((s @ w) @ [c]) = trim (s @ w)" by (intro trim_snoc_space) simp
  then show ?case using snoc by simp
qed

lemma code_lines_blank_last:
  "map_option (\<lambda>ls. trim (js_join [NL] ls)) (code_lines (ls @ [[]]))
     = map_option (\<lambda>ls. trim (js_join [NL] ls)) (code_lines ls)"
proof (induction ls)
  case Nil
  then show ?case by (simp add: code_lines_def)
next
  case (Cons a ls)
  show ?case
  proof (cases "is_anchor_line a")
    case True
    obtain w where "list_all is_space w"
      "js_join [NL] (a # takeWhile (\<lambda>l. \<not> explanation_line (trim l)) (ls @ [[]]))
       = js_join [NL] (a # takeWhile (\<lambda>l. \<not> explanation_line (trim l)) ls) @ w"
      using joined_blank_last [of a ls] by blast
    then show ?thesis using True by (simp add: code_lines_def trim_append_spaces)
  next
    case False
    then have "code_lines ((a # ls) @ [[]]) = code_lines (ls @ [[]])"
      "code_lines (a # ls) = code_lines ls"
      by (simp_all add: code_lines_def)
    then show ?thesis using Cons by simp
  qed
qed

lemma code_lines_space_last:
  assumes "is_space c"
  shows "map_option (\<lambda>ls. trim (js_join [NL] ls)) (code_lines (ls @ [l @ [c]]))
     = map_option (\<lambda>ls. trim (js_join [NL] ls)) (code_lines (ls @ [l]))"
proof (induction ls)
  case Nil
  show ?case
  proof (cases "is_anchor_line l")
    case True
    then have "is_anchor_line (l @ [c])" using assms by (simp add: is_anchor_line_snoc_space)
    then show ?thesis using True assms by (simp add: code_lines_def trim_snoc_space)
  next
    case False
    then have "\<not> is_anchor_line (l @ [c])" using assms by (simp add: is_anchor_line_snoc_space)
    then show ?thesis using False by (simp add: code_lines_def)
  qed
next
  case (Cons a ls)
  show ?case
  proof (cases "is_anchor_line a")
    case True
    obtain w where "list_all is_space w"
      "js_join [NL] (a # takeWhile (\<lambda>l. \<not> explanation_line (trim l)) (ls @ [l @ [c]]))
       = js_join [NL] (a # takeWhile (\<lambda>l. \<not> explanation_line (trim l)) (ls @ [l])) @ w"
      using joined_space_last [OF assms, of a ls l] by blast
    then show ?thesis using True by (simp add: code_lines_def trim_append_spaces)
  next
    case False
    then have "code_lines ((a # ls) @ [l @ [c]]) = code_lines (ls @ [l @ [c]])"
      "code_lines ((a # ls) @ [l]) = code_lines (ls @ [l])"
      by (simp_all add: code_lines_def)
    then show ?thesis using Cons by simp
  qed
qed

lemma detected_Cons_space: "is_space c \<Longrightarrow> detected (c # s) = detected s"
proof -
  assume c: "is_space c"
  obtain l ls where l: "split_char NL s = l # ls"
    using split_char_nonempty [of NL s] by (cases "split_char NL s") auto
  show ?thesis
  proof (cases "c = NL")
    case True
    then show ?thesis by (simp add: detected_def code_lines_blank_first)
  next
    case False
    then show ?thesis
      using l code_lines_space_first [OF c, of l ls] by (simp add: detected_def)
  qed
qed

lemma detected_snoc_space: "is_space c \<Longrightarrow> detected (s @ [c]) = detected s"
proof -
  assume c: "is_space c"
  have lines: "butlast (split_char NL s) @ [last (split_char NL s)] = split_char NL s"
    using split_char_nonempty [of NL s] by simp
  show ?thesis
  proof (cases "c = NL")
    case True
    then show ?thesis
      using code_lines_blank_last [of "split_char NL s"]
      by (simp add: detected_def split_char_snoc)
  next
    case False
    then show ?thesis
      using code_lines_space_last [OF c, of "butlast (split_char NL s)" "last (split_char NL s)"] lines
      by (simp add: detected_def split_char_snoc)
  qed
qed

lemma detected_trim: "detected (trim s) = detected s"
proof -
  have left: "detected (dropWhile is_space t) = detected t" for t
    by (induction t) (auto simp: detected_Cons_space)
  have right: "detected (rev (dropWhile is_space (rev t))) = detected t" for t
  proof (induction t rule: rev_induct)
    case Nil
    then show ?case by simp
  next
    case (snoc c t)
    then show ?case by (auto simp: detected_snoc_space)
  qed
  show ?thesis
    unfolding trim_def using left [of s] right [of "dropWhile is_space s"] by simp
qed

lemma class_detection_trim: "class_detection (trim s) = class_detection s"
  by (simp add: class_detection_detected detected_trim)

subsection \<open>What was detected is detected again, whole\<close>

lemma code_lines_again:
  assumes "code_lines ls = Some ms"
  shows "code_lines ms = Some ms \<and> ms \<noteq> [] \<and> set ms \<subseteq> set ls"
proof -
  obtain first rest where d: "dropWhile (\<lambda>l. \<not> is_anchor_line l) ls = first # rest"
    and ms: "ms = first # takeWhile (\<lambda>l. \<not> explanation_line (trim l)) rest"
    using assms by (auto simp: code_lines_def split: list.splits)
  have "is_anchor_line first"
    using hd_dropWhile [of "\<lambda>l. \<not> is_anchor_line l" ls] d by simp
  then have "code_lines ms = Some ms"
    by (simp add: code_lines_def ms)
  moreover have "set (first # rest) \<subseteq> set ls"
    using set_dropWhileD [of _ "\<lambda>l. \<not> is_anchor_line l" ls] d by (metis subsetI)
  then have "set ms \<subseteq> set ls"
    using set_takeWhileD [of _ "\<lambda>l. \<not> explanation_line (trim l)" rest] ms by auto
  ultimately show ?thesis using ms by simp
qed

lemma class_detection_again:
  assumes "class_detection src = Some extracted"
  shows "class_detection extracted = Some extracted"
    and "sublist fence extracted \<Longrightarrow> sublist fence src"
proof -
  obtain ms where ms: "code_lines (split_char NL src) = Some ms"
    and ex: "extracted = trim (js_join [NL] ms)"
    and cs: "sublist ''class Solution:'' extracted"
    using assms by (auto simp: class_detection_detected detected_def split: option.splits if_splits)
  have again: "code_lines ms = Some ms" and ne: "ms \<noteq> []" and sub: "set ms \<subseteq> set (split_char NL src)"
    using code_lines_again [OF ms] by auto
  have nl: "\<forall>l\<in>set ms. NL \<notin> set l"
    using sub split_char_no_sep [of _ NL src] by auto
  have "detected extracted = detected (js_join [NL] ms)"
    unfolding ex by (rule detected_trim)
  also have "\<dots> = Some extracted"
    using split_join [OF ne nl] again ex by (simp add: detected_def)
  finally show "class_detection extracted = Some extracted"
    using cs by (simp add: class_detection_detected)
  show "sublist fence src" if "sublist fence extracted"
  proof -
    have "sublist fence (js_join [NL] ms)"
      using that sublist_trim [of "js_join [NL] ms"] ex sublist_order.order.trans by blast
    moreover have "NL \<notin> set fence" "fence \<noteq> []"
      by (simp_all add: fence_def NL_def)
    ultimately obtain l where "l \<in> set ms" "sublist fence l"
      using sublist_join [of NL fence ms] by blast
    then have "sublist l src" using sub split_char_sublist [of l NL src] by auto
    with \<open>sublist fence l\<close> show ?thesis
      using sublist_order.order.trans by blast
  qed
qed

subsection \<open>Texts with neither fence nor anchor\<close>

lemma remove_python_fences_no_fence: "\<not> sublist fence s \<Longrightarrow> remove_python_fences s = s"
proof (induction s)
  case Nil
  then show ?case by simp
next
  case (Cons c cs)
  have "prefix fence ''```python''" by (simp add: fence_def)
  then have "\<not> prefix ''```python'' (c # cs)"
    using Cons.prems prefix_order.trans prefix_imp_sublist by blast
  then have "remove_python_fences (c # cs) = c # remove_python_fences cs"
    by (simp only: remove_python_fences.simps if_False)
  moreover have "\<not> sublist fence cs"
    using Cons.prems by (auto simp: sublist_Cons_right)
  ultimately show ?case using Cons.IH by simp
qed

lemma remove_all_absent: "\<not> sublist pat s \<Longrightarrow> remove_all pat s = s"
proof (induction s)
  case Nil
  then show ?case by simp
next
  case (Cons c cs)
  have "\<not> prefix pat (c # cs)"
    using Cons.prems prefix_imp_sublist by blast
  moreover have "\<not> sublist pat cs"
    using Cons.prems by (auto simp: sublist_Cons_right)
  ultimately show ?case using Cons.IH by simp
qed

lemma collect_code_no_anchor:
  "\<forall>l\<in>set lines. \<not> is_anchor_line l \<Longrightarrow> collect_code False lines = []"
  by (induction lines) simp_all

lemma no_anchor_line:
  assumes "\<not> sublist ''from typing import'' text" "\<not> sublist ''class Solution:'' text"
  shows "\<forall>l\<in>set (split_char NL text). \<not> is_anchor_line l"
proof
  fix l assume "l \<in> set (split_char NL text)"
  then have "sublist l text" by (rule split_char_sublist)
  then show "\<not> is_anchor_line l"
    using assms sublist_order.order.trans unfolding is_anchor_line_def by blast
qed

lemma class_detection_no_anchor:
  assumes "\<not> sublist ''from typing import'' text" "\<not> sublist ''class Solution:'' text"
  shows "class_detection text = None"
proof -
  have none: "dropWhile (\<lambda>l. \<not> is_anchor_line l) (split_char NL text) = []"
    using no_anchor_line [OF assms] by simp
  show ?thesis
    unfolding class_detection_detected detected_def code_lines_def none by simp
qed

text \<open>
  Claim C6. On a raw text with no fence marker and no language anchor (neither
  \<open>from typing import\<close> nor \<open>class Solution:\<close>), the evaluator's extractor
  \<open>extractCleanCode\<close> returns the text unchanged, and \<open>extractCodeFromMarkdown\<close>
  returns it trimmed. The extractor applied to the generated text,
  \<open>extractPythonCodeFromText\<close>, has no such fallback: it collects lines only from the
  first anchor line on, and returns the empty text, so the raw text is not passed onward.
\<close>

theorem extraction_without_anchor:
  assumes "\<not> sublist fence text"
    and "\<not> sublist ''from typing import'' text" and "\<not> sublist ''class Solution:'' text"
    and "plain_language language"
  shows "extractCleanCode text language = text
       \<and> extractCodeFromMarkdown text language = trim text
       \<and> extractPythonCodeFromText text = []"
proof -
  have "extractCleanCode text language = text"
    using assms(1,3) class_detection_no_anchor [OF assms(2,3)]
    by (simp add: extractCleanCode_no_fence)
  moreover have "extractCodeFromMarkdown text language = trim text"
    using assms(1) by (rule extractCodeFromMarkdown_no_fence)
  moreover have "extractPythonCodeFromText text = []"
    using assms(1) collect_code_no_anchor [OF no_anchor_line [OF assms(2,3)]]
    by (simp add: extractPythonCodeFromText_def remove_python_fences_no_fence remove_all_absent)
  ultimately show ?thesis by simp
qed

theorem extraction_without_anchor_witness:
  "\<not> sublist fence ''print(1)'' \<and> \<not> sublist ''from typing import'' ''print(1)''
   \<and> \<not> sublist ''class Solution:'' ''print(1)'' \<and> plain_language ''python''
   \<and> extractCleanCode ''print(1)'' ''python'' = ''print(1)''
   \<and> extractCodeFromMarkdown ''print(1)'' ''python'' = trim ''print(1)''
   \<and> extractPythonCodeFromText ''print(1)'' = []"
proof -
  have h: "\<not> sublist fence ''print(1)''" "\<not> sublist ''from typing import'' ''print(1)''"
    "\<not> sublist ''class Solution:'' ''print(1)''" "plain_language ''python''"
    by code_simp+
  from extraction_without_anchor [OF h] h show ?thesis by blast
qed

subsection \<open>Extracting twice\<close>

text \<open>
  Claim C7. The extractors are functions of their arguments, and on clean code, a text
  without a fence marker (what the source takes for code that is already clean), a
  second extraction returns what the first returned; both for \<open>extractCleanCode\<close> and
  for \<open>extractCodeFromMarkdown\<close>.
\<close>

theorem extract_idempotent_on_clean_code:
  assumes "\<not> sublist fence src" "plain_language language"
  shows "extractCleanCode (extractCleanCode src language) language = extractCleanCode src language
       \<and> extractCodeFromMarkdown (extractCodeFromMarkdown src language) language
           = extractCodeFromMarkdown src language"
proof
  show "extractCleanCode (extractCleanCode src language) language = extractCleanCode src language"
  proof (cases "if language = ''python'' then class_detection src else None")
    case (Some extracted)
    then have python: "language = ''python''" and det: "class_detection src = Some extracted"
      by (auto split: if_splits)
    have first: "extractCleanCode src language = extracted"
      using assms(1) Some by (simp add: extractCleanCode_no_fence)
    have "\<not> sublist fence extracted"
      using class_detection_again(2) [OF det] assms(1) by blast
    then have "extractCleanCode extracted language = extracted"
      using class_detection_again(1) [OF det] python by (simp add: extractCleanCode_no_fence)
    then show ?thesis using first by simp
  next
    case None
    show ?thesis
    proof (cases "sublist ''class Solution:'' src")
      case False
      then have "extractCleanCode src language = src"
        using assms(1) None by (simp add: extractCleanCode_no_fence)
      then show ?thesis by simp
    next
      case True
      then have first: "extractCleanCode src language = trim src"
        using assms(1) None by (simp add: extractCleanCode_no_fence)
      have "(if language = ''python'' then class_detection (trim src) else None) = None"
        using None by (simp add: class_detection_trim split: if_splits)
      then have "extractCleanCode (trim src) language = trim src"
        using no_fence_trim [OF assms(1)] by (simp add: extractCleanCode_no_fence)
      then show ?thesis using first by simp
    qed
  qed
  show "extractCodeFromMarkdown (extractCodeFromMarkdown src language) language
           = extractCodeFromMarkdown src language"
    using assms(1) no_fence_trim [OF assms(1)] by (simp add: extractCodeFromMarkdown_no_fence)
qed

theorem extract_idempotent_on_clean_code_witness:
  "\<not> sublist fence clean_class \<and> plain_language ''python''
   \<and> extractCleanCode (extractCleanCode clean_class ''python'') ''python''
       = extractCleanCode clean_class ''python''
   \<and> extractCodeFromMarkdown (extractCodeFromMarkdown clean_class ''python'') ''python''
       = extractCodeFromMarkdown clean_class ''python''"
proof -
  have h: "\<not> sublist fence clean_class" "plain_language ''python''"
    by code_simp+
  from extract_idempotent_on_clean_code [OF h] h show ?thesis by blast
qed

text \<open>
  The restriction to clean code matters: the text inside a fenced block may hold lines
  before the class, which the first extraction keeps and a second one drops.
\<close>

lemma fenced_text_second_pass:
  "extractCleanCode (''```python'' @ [NL] @ ''foo'' @ [NL] @ ''class Solution:'' @ [NL] @ '' pass'' @ [NL] @ ''```'') ''python''
     = ''foo'' @ [NL] @ ''class Solution:'' @ [NL] @ '' pass''
   \<and> extractCleanCode (''foo'' @ [NL] @ ''class Solution:'' @ [NL] @ '' pass'') ''python''
     = ''class Solution:'' @ [NL] @ '' pass''"
  by code_simp

end
